theory Spec2Isabelle
  imports Main "HOL-Library.Product_Lexorder" "HOL-Library.Multiset"
begin

section \<open>Python values used by the indexer\<close>

text \<open>
  Exceptions of the source are values. \<open>DBAPIError\<close> stands for any exception a database
  round trip raises, \<open>Web3Error\<close> for any exception an RPC call raises, \<open>TimeoutError\<close>
  for \<open>asyncio.TimeoutError\<close>, which the loop of \<open>run\<close> handles apart.
\<close>

datatype error =
    ValueError
  | AttributeError
  | OverflowError
  | MultipleResultsFound
  | NoResultFound
  | DBAPIError
  | Web3Error
  | RetryError
  | TimeoutError

subsection \<open>\<open>str(n)\<close> and \<open>int(s)\<close> on decimal strings\<close>

text \<open>
  Amounts are stored as decimal strings: the code writes \<open>str(n)\<close> and reads \<open>int(s)\<close>.
  \<open>py_int\<close> accepts an optional sign followed by ASCII digits and raises \<open>ValueError\<close> on
  anything else. (Python's \<open>int\<close> also accepts surrounding white space and underscores
  between digits; no string written by this code has either, and every statement below
  that reads an amount assumes that \<open>py_int\<close> succeeded.)
\<close>

definition digit_char :: "nat \<Rightarrow> char" where
  "digit_char d = char_of (48 + d)"

fun digits_of :: "nat \<Rightarrow> string" where
  "digits_of n = (if n < 10 then [digit_char n] else digits_of (n div 10) @ [digit_char (n mod 10)])"

declare digits_of.simps [simp del]

definition py_str :: "int \<Rightarrow> string" where
  "py_str i = (if i < 0 then CHR ''-'' # digits_of (nat (- i)) else digits_of (nat i))"

definition is_digit :: "char \<Rightarrow> bool" where
  "is_digit c = (48 \<le> (of_char c :: nat) \<and> (of_char c :: nat) \<le> 57)"

definition digits_value :: "string \<Rightarrow> nat" where
  "digits_value ds = foldl (\<lambda>acc c. 10 * acc + (of_char c - 48)) 0 ds"

definition parse_digits :: "string \<Rightarrow> error + nat" where
  "parse_digits ds = (if ds \<noteq> [] \<and> list_all is_digit ds then Inr (digits_value ds) else Inl ValueError)"

definition py_int :: "string \<Rightarrow> error + int" where
  "py_int s =
     (case s of
        [] \<Rightarrow> Inl ValueError
      | c # cs \<Rightarrow>
          if c = CHR ''-'' then map_sum id (\<lambda>n. - int n) (parse_digits cs)
          else if c = CHR ''+'' then map_sum id int (parse_digits cs)
          else map_sum id int (parse_digits s))"

text \<open>\<open>s.lower()\<close> on ASCII strings (chain names and hexadecimal addresses).\<close>

definition py_lower :: "string \<Rightarrow> string" where
  "py_lower s =
     map (\<lambda>c. if 65 \<le> (of_char c :: nat) \<and> (of_char c :: nat) \<le> 90
               then char_of ((of_char c :: nat) + 32) else c) s"

subsection \<open>\<open>datetime\<close> and \<open>timedelta\<close>\<close>

text \<open>
  A naive \<open>datetime\<close> is its number of microseconds from 1970-01-01T00:00:00, a
  \<open>timedelta\<close> a number of microseconds. Both Python types are bounded and raise
  \<open>OverflowError\<close> outside their range. The local time zone of \<open>fromtimestamp\<close> is taken
  to be UTC.
\<close>

type_synonym datetime = int
type_synonym timedelta = int

definition datetime_min :: datetime where
  "datetime_min = - 62135596800000000"

definition datetime_max :: datetime where
  "datetime_max = 253402300799999999"

definition timedelta_seconds :: "int \<Rightarrow> error + timedelta" where
  "timedelta_seconds n =
     (if \<bar>n div 86400\<bar> > 999999999 then Inl OverflowError else Inr (n * 1000000))"

definition timedelta_days :: "int \<Rightarrow> error + timedelta" where
  "timedelta_days n =
     (if \<bar>n\<bar> > 999999999 then Inl OverflowError else Inr (n * 86400 * 1000000))"

definition datetime_add :: "datetime \<Rightarrow> timedelta \<Rightarrow> error + datetime" where
  "datetime_add t d =
     (if t + d < datetime_min \<or> datetime_max < t + d then Inl OverflowError else Inr (t + d))"

definition fromtimestamp :: "int \<Rightarrow> error + datetime" where
  "fromtimestamp ts =
     (if ts * 1000000 < datetime_min \<or> datetime_max < ts * 1000000 then Inl OverflowError
      else Inr (ts * 1000000))"

section \<open>The tables\<close>

text \<open>
  Modelled from the spec: the ORM classes \<open>Pool\<close>, \<open>Stake\<close>, \<open>StakingEvent\<close> and
  \<open>IndexerState\<close> are imported from \<open>src.models.database\<close>, which does not declare them.
  The records hold the attributes the indexer reads and writes, with the spec's data
  model for their meaning. \<open>Pool.id\<close> is the table's own key, \<open>Pool.pool_id\<close> the on-chain
  pool id. An attribute the constructor call leaves out is \<open>None\<close>.
\<close>

record pool =
  p_id :: int
  p_chain :: string
  p_pool_id :: int
  p_staking_token :: string
  p_reward_token :: string
  p_reward_rate :: string
  p_lock_duration :: int
  p_deposit_fee :: int
  p_withdraw_fee :: int
  p_is_active :: bool

record stake =
  s_chain :: string
  s_pool_id :: int
  s_user_address :: string
  s_staked_amount :: string
  s_pending_rewards :: "string option"
  s_last_stake_time :: "datetime option"
  s_unlock_time :: "datetime option"
  s_is_active :: bool

record staking_event =
  e_chain :: string
  e_event_type :: string
  e_tx_hash :: string
  e_block_number :: int
  e_log_index :: int
  e_pool_id :: int
  e_user_address :: string
  e_amount :: "string option"
  e_reward_amount :: "string option"
  e_timestamp :: datetime

record indexer_state =
  i_chain :: string
  i_last_block_number :: int
  i_is_syncing :: "bool option"
  i_updated_at :: "datetime option"

text \<open>
  The database as one session sees it. Rows are kept in insertion order; no row is ever
  deleted. The session flushes before every query, so a query sees the rows added and
  the attributes assigned earlier in the same transaction.
\<close>

record db =
  pools :: "pool list"
  stakes :: "stake list"
  staking_events :: "staking_event list"
  indexer_states :: "indexer_state list"

text \<open>
  A session: the committed database and the session's own view with its uncommitted work.
\<close>

record session =
  committed :: db
  working :: db

definition commit :: "session \<Rightarrow> session" where
  "commit s = s\<lparr>committed := working s\<rparr>"

definition rollback :: "session \<Rightarrow> session" where
  "rollback s = s\<lparr>working := committed s\<rparr>"

text \<open>
  \<open>await self.db.execute(q)\<close>: the round trip raises when \<open>fails\<close> is set, and gives the
  result of the query otherwise.
\<close>

definition db_execute :: "bool \<Rightarrow> 'a \<Rightarrow> error + 'a" where
  "db_execute fails r = (if fails then Inl DBAPIError else Inr r)"

text \<open>
  The same round trip where the kind of exception matters, in \<open>run\<close> and \<open>sync_pools\<close>:
  \<open>exc\<close> is the exception raised. (Inside \<open>index_block_range\<close> every exception is
  rolled back and leaves as \<open>RetryError\<close>, whatever it was.)
\<close>

definition db_execute_raising :: "error \<Rightarrow> bool \<Rightarrow> 'a \<Rightarrow> error + 'a" where
  "db_execute_raising exc fails r = (if fails then Inl exc else Inr r)"

fun scalar_one_or_none :: "'a list \<Rightarrow> error + 'a option" where
  "scalar_one_or_none [] = Inr None"
| "scalar_one_or_none [x] = Inr (Some x)"
| "scalar_one_or_none (x # y # zs) = Inl MultipleResultsFound"

fun scalar_one :: "'a list \<Rightarrow> error + 'a" where
  "scalar_one [] = Inl NoResultFound"
| "scalar_one [x] = Inr x"
| "scalar_one (x # y # zs) = Inl MultipleResultsFound"

fun scalar :: "'a list \<Rightarrow> 'a option" where
  "scalar [] = None"
| "scalar (x # xs) = Some x"

text \<open>
  The queries. A query for ORM objects gives the positions of the matching rows, so that
  an assignment to the object found is an update of that row.
\<close>

definition select_stake :: "db \<Rightarrow> string \<Rightarrow> int \<Rightarrow> string \<Rightarrow> nat list" where
  "select_stake d ch pid usr =
     filter (\<lambda>i. s_chain (stakes d ! i) = ch \<and> s_pool_id (stakes d ! i) = pid
                 \<and> s_user_address (stakes d ! i) = usr) [0..<length (stakes d)]"

definition select_pool :: "db \<Rightarrow> string \<Rightarrow> int \<Rightarrow> nat list" where
  "select_pool d ch pid =
     filter (\<lambda>i. p_chain (pools d ! i) = ch \<and> p_pool_id (pools d ! i) = pid) [0..<length (pools d)]"

definition select_pool_id :: "db \<Rightarrow> string \<Rightarrow> int \<Rightarrow> int list" where
  "select_pool_id d ch pid =
     map p_id (filter (\<lambda>p. p_chain p = ch \<and> p_pool_id p = pid) (pools d))"

definition select_indexer_state :: "db \<Rightarrow> string \<Rightarrow> nat list" where
  "select_indexer_state d ch =
     filter (\<lambda>i. i_chain (indexer_states d ! i) = ch) [0..<length (indexer_states d)]"

definition set_stake :: "nat \<Rightarrow> (stake \<Rightarrow> stake) \<Rightarrow> db \<Rightarrow> db" where
  "set_stake i f d = d\<lparr>stakes := (stakes d)[i := f (stakes d ! i)]\<rparr>"

text \<open>
  Sequencing: \<open>raise_or r d k\<close> continues with the value of \<open>r\<close>, or stops with its
  exception and the state \<open>d\<close> reached at that point.
\<close>

definition raise_or :: "error + 'a \<Rightarrow> 's \<Rightarrow> ('a \<Rightarrow> (error + 'b) \<times> 's) \<Rightarrow> (error + 'b) \<times> 's" where
  "raise_or r d k = (case r of Inl e \<Rightarrow> (Inl e, d) | Inr x \<Rightarrow> k x)"

section \<open>The balance rules of \<open>IndexerService\<close>\<close>

text \<open>
  \<open>self_chain\<close> is \<open>self.chain\<close>, \<open>fails\<close> tells whether the database raises during this
  call. Every round trip of a handler comes before its first assignment.
\<close>

definition handle_stake ::
  "bool \<Rightarrow> string \<Rightarrow> int \<Rightarrow> string \<Rightarrow> int \<Rightarrow> datetime \<Rightarrow> db \<Rightarrow> (error + unit) \<times> db" where
  "handle_stake fails self_chain pool_id user amount timestamp d =
     raise_or (db_execute fails (select_stake d self_chain pool_id user)) d (\<lambda>result.
     raise_or (scalar_one_or_none result) d (\<lambda>stake.
     raise_or (db_execute fails (select_pool d self_chain pool_id)) d (\<lambda>pool_result.
     raise_or (scalar_one_or_none pool_result) d (\<lambda>pool.
     raise_or (case pool of Some p \<Rightarrow> timedelta_seconds (p_lock_duration (pools d ! p))
                          | None \<Rightarrow> timedelta_days 7) d (\<lambda>lock_duration.
     case stake of
       Some i \<Rightarrow>
         raise_or (py_int (s_staked_amount (stakes d ! i))) d (\<lambda>n.
         let d1 = set_stake i (\<lambda>s. s\<lparr>s_staked_amount := py_str (n + amount)\<rparr>) d;
             d2 = set_stake i (\<lambda>s. s\<lparr>s_last_stake_time := Some timestamp\<rparr>) d1
         in raise_or (datetime_add timestamp lock_duration) d2 (\<lambda>u.
            let d3 = set_stake i (\<lambda>s. s\<lparr>s_unlock_time := Some u\<rparr>) d2;
                d4 = set_stake i (\<lambda>s. s\<lparr>s_is_active := True\<rparr>) d3
            in (Inr (), d4)))
     | None \<Rightarrow>
         raise_or (db_execute fails (select_pool_id d self_chain pool_id)) d (\<lambda>pool_ref_result.
         case scalar pool_ref_result of
           None \<Rightarrow> (Inr (), d)
         | Some pool_ref_id \<Rightarrow>
             if pool_ref_id \<noteq> 0 then
               raise_or (datetime_add timestamp lock_duration) d (\<lambda>u.
                 (Inr (), d\<lparr>stakes := stakes d @
                    [\<lparr>s_chain = self_chain, s_pool_id = pool_ref_id, s_user_address = user,
                      s_staked_amount = py_str amount, s_pending_rewards = None,
                      s_last_stake_time = Some timestamp, s_unlock_time = Some u,
                      s_is_active = True\<rparr>]\<rparr>))
             else (Inr (), d)))))))"

definition handle_withdraw ::
  "bool \<Rightarrow> string \<Rightarrow> int \<Rightarrow> string \<Rightarrow> int \<Rightarrow> datetime \<Rightarrow> db \<Rightarrow> (error + unit) \<times> db" where
  "handle_withdraw fails self_chain pool_id user amount timestamp d =
     raise_or (db_execute fails (select_stake d self_chain pool_id user)) d (\<lambda>result.
     raise_or (scalar_one_or_none result) d (\<lambda>stake.
     case stake of
       Some i \<Rightarrow>
         raise_or (py_int (s_staked_amount (stakes d ! i))) d (\<lambda>n.
         let new_amount = n - amount in
         if new_amount \<le> 0 then
           (Inr (), set_stake i (\<lambda>s. s\<lparr>s_staked_amount := ''0'', s_pending_rewards := Some ''0'',
                                        s_is_active := False\<rparr>) d)
         else
           (Inr (), set_stake i (\<lambda>s. s\<lparr>s_staked_amount := py_str new_amount,
                                        s_pending_rewards := Some ''0''\<rparr>) d))
     | None \<Rightarrow> (Inr (), d)))"

definition handle_emergency_withdraw ::
  "bool \<Rightarrow> string \<Rightarrow> int \<Rightarrow> string \<Rightarrow> int \<Rightarrow> db \<Rightarrow> (error + unit) \<times> db" where
  "handle_emergency_withdraw fails self_chain pool_id user amount d =
     raise_or (db_execute fails (select_stake d self_chain pool_id user)) d (\<lambda>result.
     raise_or (scalar_one_or_none result) d (\<lambda>stake.
     case stake of
       Some i \<Rightarrow>
         (Inr (), set_stake i (\<lambda>s. s\<lparr>s_staked_amount := ''0'', s_pending_rewards := Some ''0'',
                                      s_is_active := False\<rparr>) d)
     | None \<Rightarrow> (Inr (), d)))"

definition handle_reward_claimed ::
  "bool \<Rightarrow> string \<Rightarrow> int \<Rightarrow> string \<Rightarrow> db \<Rightarrow> (error + unit) \<times> db" where
  "handle_reward_claimed fails self_chain pool_id user d =
     raise_or (db_execute fails (select_stake d self_chain pool_id user)) d (\<lambda>result.
     raise_or (scalar_one_or_none result) d (\<lambda>stake.
     case stake of
       Some i \<Rightarrow> (Inr (), set_stake i (\<lambda>s. s\<lparr>s_pending_rewards := Some ''0''\<rparr>) d)
     | None \<Rightarrow> (Inr (), d)))"


section \<open>The chain client\<close>

text \<open>
  A decoded log (\<open>EventData\<close>). An argument the event kind does not have is \<open>None\<close>:
  \<open>hasattr\<close> is false and reading it raises \<open>AttributeError\<close>. \<open>ev_transactionHash\<close> is
  the hash in hexadecimal, as \<open>.hex()\<close> gives it.
\<close>

record event_args =
  a_user :: string
  a_poolId :: int
  a_amount :: "int option"
  a_rewardAmount :: "int option"

record raw_event =
  ev_event :: string
  ev_args :: event_args
  ev_transactionHash :: string
  ev_blockNumber :: int
  ev_logIndex :: int

text \<open>The tuple \<open>getPool\<close> returns, and \<open>PoolInfo\<close>.\<close>

record pool_data =
  pd_stakingToken :: string
  pd_rewardToken :: string
  pd_totalStaked :: int
  pd_rewardRate :: int
  pd_lockDuration :: int
  pd_lastUpdateTime :: int
  pd_rewardPerTokenStored :: int
  pd_isActive :: bool
  pd_depositFee :: int
  pd_withdrawFee :: int

record pool_info =
  pi_pool_id :: int
  pi_staking_token :: string
  pi_reward_token :: string
  pi_total_staked :: int
  pi_reward_rate :: int
  pi_lock_duration :: int
  pi_is_active :: bool
  pi_deposit_fee :: int
  pi_withdraw_fee :: int
  pi_apy :: int

type_synonym argument_filters = "(string \<times> string) list"

text \<open>
  The node: what each RPC call answers, \<open>Inl\<close> when the call or the decoding raises.
  \<open>eth_get_block\<close> gives the block's timestamp, the one attribute the indexer reads.
\<close>

record node =
  eth_block_number :: "error + int"
  eth_get_block :: "int \<Rightarrow> error + int"
  get_logs :: "string \<Rightarrow> int \<Rightarrow> int \<Rightarrow> argument_filters option \<Rightarrow> error + raw_event list"
  poolCount :: "error + int"
  getPool :: "int \<Rightarrow> error + pool_data"
  getPoolAPY :: "int \<Rightarrow> error + int"

definition get_block_number :: "node \<Rightarrow> error + int" where
  "get_block_number nd = eth_block_number nd"

definition get_block :: "node \<Rightarrow> int \<Rightarrow> error + int" where
  "get_block nd block_number = eth_get_block nd block_number"

definition get_pool_count :: "node \<Rightarrow> int" where
  "get_pool_count nd = (case poolCount nd of Inl e \<Rightarrow> 0 | Inr n \<Rightarrow> n)"

definition get_pool_info :: "node \<Rightarrow> int \<Rightarrow> pool_info option" where
  "get_pool_info nd pool_id =
     (case getPool nd pool_id of
        Inl e \<Rightarrow> None
      | Inr pool_data \<Rightarrow>
          (case getPoolAPY nd pool_id of
             Inl e \<Rightarrow> None
           | Inr apy \<Rightarrow>
               Some \<lparr>pi_pool_id = pool_id,
                     pi_staking_token = pd_stakingToken pool_data,
                     pi_reward_token = pd_rewardToken pool_data,
                     pi_total_staked = pd_totalStaked pool_data,
                     pi_reward_rate = pd_rewardRate pool_data,
                     pi_lock_duration = pd_lockDuration pool_data,
                     pi_is_active = pd_isActive pool_data,
                     pi_deposit_fee = pd_depositFee pool_data,
                     pi_withdraw_fee = pd_withdrawFee pool_data,
                     pi_apy = apy\<rparr>))"

definition get_events ::
  "node \<Rightarrow> string \<Rightarrow> int \<Rightarrow> int \<Rightarrow> argument_filters option \<Rightarrow> raw_event list" where
  "get_events nd event_name from_block to_block argument_filters =
     (let filter_params =
            (case argument_filters of
               None \<Rightarrow> None
             | Some f \<Rightarrow> if f \<noteq> [] then Some f else None)
      in case get_logs nd event_name from_block to_block filter_params of
           Inl e \<Rightarrow> []
         | Inr logs \<Rightarrow> logs)"

definition event_names :: "string list" where
  "event_names = [''Staked'', ''Withdrawn'', ''RewardClaimed'', ''EmergencyWithdrawn'']"

definition event_key :: "raw_event \<Rightarrow> int \<times> int" where
  "event_key x = (ev_blockNumber x, ev_logIndex x)"

text \<open>
  \<open>get_events\<close> catches every exception itself, so the \<open>except\<close> of the loop is never
  entered. \<open>list.sort\<close> is stable, as \<open>sort_key\<close> is.
\<close>

definition get_all_events :: "node \<Rightarrow> int \<Rightarrow> int \<Rightarrow> raw_event list" where
  "get_all_events nd from_block to_block =
     (let events =
            foldl (\<lambda>events event_name. events @ get_events nd event_name from_block to_block None)
              [] event_names
      in sort_key event_key events)"

section \<open>The indexing engine\<close>

definition getattr :: "'a option \<Rightarrow> error + 'a" where
  "getattr v = (case v of None \<Rightarrow> Inl AttributeError | Some x \<Rightarrow> Inr x)"

text \<open>
  \<open>utcnow\<close> is what \<open>datetime.utcnow()\<close> returns during this call; it is read only in the
  \<open>except\<close> branch.
\<close>

definition event_timestamp :: "node \<Rightarrow> datetime \<Rightarrow> int \<Rightarrow> datetime" where
  "event_timestamp nd utcnow block_number =
     (case get_block nd block_number of
        Inl e \<Rightarrow> utcnow
      | Inr block_timestamp \<Rightarrow>
          (case fromtimestamp block_timestamp of Inl e \<Rightarrow> utcnow | Inr t \<Rightarrow> t))"

definition process_event ::
  "bool \<Rightarrow> string \<Rightarrow> node \<Rightarrow> datetime \<Rightarrow> raw_event \<Rightarrow> db \<Rightarrow> (error + unit) \<times> db" where
  "process_event fails self_chain nd utcnow event d =
     (let event_name = ev_event event;
          args = ev_args event;
          tx_hash = ev_transactionHash event;
          block_number = ev_blockNumber event;
          log_index = ev_logIndex event;
          timestamp = event_timestamp nd utcnow block_number;
          staking_event =
            \<lparr>e_chain = self_chain, e_event_type = event_name, e_tx_hash = tx_hash,
             e_block_number = block_number, e_log_index = log_index,
             e_pool_id = a_poolId args, e_user_address = py_lower (a_user args),
             e_amount = map_option py_str (a_amount args),
             e_reward_amount = map_option py_str (a_rewardAmount args),
             e_timestamp = timestamp\<rparr>;
          d1 = d\<lparr>staking_events := staking_events d @ [staking_event]\<rparr>
      in if event_name = ''Staked'' then
           raise_or (getattr (a_amount args)) d1 (\<lambda>amount.
             handle_stake fails self_chain (a_poolId args) (py_lower (a_user args)) amount timestamp d1)
         else if event_name = ''Withdrawn'' then
           raise_or (getattr (a_amount args)) d1 (\<lambda>amount.
             handle_withdraw fails self_chain (a_poolId args) (py_lower (a_user args)) amount timestamp d1)
         else if event_name = ''EmergencyWithdrawn'' then
           raise_or (getattr (a_amount args)) d1 (\<lambda>amount.
             handle_emergency_withdraw fails self_chain (a_poolId args) (py_lower (a_user args)) amount d1)
         else if event_name = ''RewardClaimed'' then
           handle_reward_claimed fails self_chain (a_poolId args) (py_lower (a_user args)) d1
         else (Inr (), d1))"

text \<open>
  What the world does during one attempt of a batch: the node's answers, the clock while
  the \<open>k\<close>-th event is processed and when the cursor is written, and where the database
  raises (while the \<open>k\<close>-th event is handled, at the \<open>update\<close>, at the \<open>commit\<close>).
\<close>

record attempt =
  at_node :: node
  at_utcnow :: "nat \<Rightarrow> datetime"
  at_updated_at :: datetime
  at_db_fails :: "nat \<Rightarrow> bool"
  at_update_fails :: bool
  at_commit_fails :: bool

fun process_events :: "attempt \<Rightarrow> string \<Rightarrow> nat \<Rightarrow> raw_event list \<Rightarrow> db \<Rightarrow> (error + unit) \<times> db" where
  "process_events a self_chain k [] d = (Inr (), d)"
| "process_events a self_chain k (event # events) d =
     (case process_event (at_db_fails a k) self_chain (at_node a) (at_utcnow a k) event d of
        (Inl e, d') \<Rightarrow> (Inl e, d')
      | (Inr u, d') \<Rightarrow> process_events a self_chain (Suc k) events d')"

definition update_indexer_state :: "string \<Rightarrow> int \<Rightarrow> datetime \<Rightarrow> db \<Rightarrow> db" where
  "update_indexer_state self_chain to_block now d =
     d\<lparr>indexer_states :=
          map (\<lambda>r. if i_chain r = self_chain
                    then r\<lparr>i_last_block_number := to_block, i_is_syncing := Some False,
                           i_updated_at := Some now\<rparr>
                    else r) (indexer_states d)\<rparr>"

text \<open>The body of \<open>index_block_range\<close>: one attempt.\<close>

definition index_block_range_body ::
  "attempt \<Rightarrow> string \<Rightarrow> int \<Rightarrow> int \<Rightarrow> session \<Rightarrow> (error + unit) \<times> session" where
  "index_block_range_body a self_chain from_block to_block s =
     (let events = get_all_events (at_node a) from_block to_block in
      case process_events a self_chain 0 events (working s) of
        (Inl e, d') \<Rightarrow> (Inl e, rollback (s\<lparr>working := d'\<rparr>))
      | (Inr u, d1) \<Rightarrow>
          if at_update_fails a then (Inl DBAPIError, rollback (s\<lparr>working := d1\<rparr>))
          else
            let d2 = update_indexer_state self_chain to_block (at_updated_at a) d1 in
            if at_commit_fails a then (Inl DBAPIError, rollback (s\<lparr>working := d2\<rparr>))
            else (Inr (), commit (s\<lparr>working := d2\<rparr>)))"

text \<open>
  \<open>@retry(stop=stop_after_attempt(3), ...)\<close>: the body runs again after an exception, at
  most three times in all; then \<open>RetryError\<close> is raised. The waits are not modelled.
\<close>

fun retry ::
  "nat \<Rightarrow> nat \<Rightarrow> (nat \<Rightarrow> 's \<Rightarrow> (error + unit) \<times> 's) \<Rightarrow> 's \<Rightarrow> (error + unit) \<times> 's" where
  "retry 0 k body s = (Inl RetryError, s)"
| "retry (Suc n) k body s =
     (case body k s of
        (Inr u, s') \<Rightarrow> (Inr u, s')
      | (Inl e, s') \<Rightarrow> retry n (Suc k) body s')"

definition index_block_range ::
  "(nat \<Rightarrow> attempt) \<Rightarrow> string \<Rightarrow> int \<Rightarrow> int \<Rightarrow> session \<Rightarrow> (error + unit) \<times> session" where
  "index_block_range attempts self_chain from_block to_block s =
     retry 3 0 (\<lambda>k. index_block_range_body (attempts k) self_chain from_block to_block) s"

subsection \<open>Pool sync\<close>

text \<open>
  What the world does during one pool sync: the node's answers, whether the database
  raises (at the query for the \<open>k\<close>-th pool, at the \<open>commit\<close>), and the exception it raises
  then.
\<close>

record sync =
  sy_node :: node
  sy_db_fails :: "nat \<Rightarrow> bool"
  sy_commit_fails :: bool
  sy_exception :: error

text \<open>
  The key of a new \<open>Pool\<close> row is given by the database when the row is flushed: one more
  than the largest key in the table.
\<close>

definition next_pool_key :: "db \<Rightarrow> int" where
  "next_pool_key d = foldr max (map p_id (pools d)) 0 + 1"

definition sync_pool :: "error \<Rightarrow> bool \<Rightarrow> string \<Rightarrow> node \<Rightarrow> int \<Rightarrow> db \<Rightarrow> (error + unit) \<times> db" where
  "sync_pool exc fails self_chain nd pool_id d =
     (case get_pool_info nd pool_id of
        None \<Rightarrow> (Inr (), d)
      | Some info \<Rightarrow>
          raise_or (db_execute_raising exc fails (select_pool d self_chain pool_id)) d (\<lambda>result.
          raise_or (scalar_one_or_none result) d (\<lambda>pool.
          case pool of
            Some i \<Rightarrow>
              (Inr (), d\<lparr>pools := (pools d)[i := (pools d ! i)
                 \<lparr>p_staking_token := pi_staking_token info,
                  p_reward_token := pi_reward_token info,
                  p_reward_rate := py_str (pi_reward_rate info),
                  p_lock_duration := pi_lock_duration info,
                  p_deposit_fee := pi_deposit_fee info,
                  p_withdraw_fee := pi_withdraw_fee info,
                  p_is_active := pi_is_active info\<rparr>]\<rparr>)
          | None \<Rightarrow>
              (Inr (), d\<lparr>pools := pools d @
                 [\<lparr>p_id = next_pool_key d, p_chain = self_chain, p_pool_id = pool_id,
                   p_staking_token = pi_staking_token info,
                   p_reward_token = pi_reward_token info,
                   p_reward_rate = py_str (pi_reward_rate info),
                   p_lock_duration = pi_lock_duration info,
                   p_deposit_fee = pi_deposit_fee info,
                   p_withdraw_fee = pi_withdraw_fee info,
                   p_is_active = pi_is_active info\<rparr>]\<rparr>))))"

fun sync_pool_range :: "sync \<Rightarrow> string \<Rightarrow> nat \<Rightarrow> nat list \<Rightarrow> db \<Rightarrow> (error + unit) \<times> db" where
  "sync_pool_range sy self_chain k [] d = (Inr (), d)"
| "sync_pool_range sy self_chain k (pool_id # pool_ids) d =
     (case sync_pool (sy_exception sy) (sy_db_fails sy k) self_chain (sy_node sy) (int pool_id) d of
        (Inl e, d') \<Rightarrow> (Inl e, d')
      | (Inr u, d') \<Rightarrow> sync_pool_range sy self_chain (Suc k) pool_ids d')"

text \<open>An exception leaves \<open>sync_pools\<close> with the work done so far still in the session.\<close>

definition sync_pools :: "sync \<Rightarrow> string \<Rightarrow> session \<Rightarrow> (error + unit) \<times> session" where
  "sync_pools sy self_chain s =
     (let pool_count = get_pool_count (sy_node sy) in
      case sync_pool_range sy self_chain 0 [0..<nat pool_count] (working s) of
        (Inl e, d') \<Rightarrow> (Inl e, s\<lparr>working := d'\<rparr>)
      | (Inr u, d') \<Rightarrow>
          if sy_commit_fails sy then (Inl (sy_exception sy), s\<lparr>working := d'\<rparr>)
          else (Inr (), commit (s\<lparr>working := d'\<rparr>)))"

subsection \<open>The loop\<close>

record settings =
  INDEXER_BATCH_SIZE :: int
  INDEXER_POLL_INTERVAL :: int
  INDEX_START_BLOCK :: int

record init =
  in_select_fails :: bool
  in_commit_fails :: bool

definition initialize :: "init \<Rightarrow> string \<Rightarrow> settings \<Rightarrow> session \<Rightarrow> (error + unit) \<times> session" where
  "initialize ini self_chain st s =
     raise_or (db_execute (in_select_fails ini) (select_indexer_state (working s) self_chain)) s (\<lambda>result.
     raise_or (scalar_one_or_none result) s (\<lambda>state.
     case state of
       Some i \<Rightarrow> (Inr (), s)
     | None \<Rightarrow>
         let s1 = s\<lparr>working := (working s)\<lparr>indexer_states := indexer_states (working s) @
                    [\<lparr>i_chain = self_chain, i_last_block_number = INDEX_START_BLOCK st,
                      i_is_syncing = None, i_updated_at = None\<rparr>]\<rparr>\<rparr>
         in if in_commit_fails ini then (Inl DBAPIError, s1) else (Inr (), commit s1)))"

text \<open>
  What the world does during one turn of the loop: whether the query for the cursor
  raises and which exception, the node's answer for the chain head, the pool sync and the
  attempts of the batch. The wait at the end of a turn and the cooldown after an exception
  take time only.
\<close>

record iteration =
  it_select_fails :: bool
  it_exception :: error
  it_node :: node
  it_sync :: sync
  it_attempts :: "nat \<Rightarrow> attempt"

definition next_to_block :: "settings \<Rightarrow> int \<Rightarrow> int \<Rightarrow> int" where
  "next_to_block st current_block last_block =
     min (current_block - 1) (last_block + INDEXER_BATCH_SIZE st)"

definition run_try :: "iteration \<Rightarrow> string \<Rightarrow> settings \<Rightarrow> session \<Rightarrow> (error + unit) \<times> session" where
  "run_try it self_chain st s =
     raise_or (db_execute_raising (it_exception it) (it_select_fails it)
                 (select_indexer_state (working s) self_chain)) s (\<lambda>result.
     raise_or (scalar_one result) s (\<lambda>state.
     raise_or (get_block_number (it_node it)) s (\<lambda>current_block.
     let last_block = i_last_block_number (indexer_states (working s) ! state) in
     if current_block > last_block then
       (case sync_pools (it_sync it) self_chain s of
          (Inl e, s1) \<Rightarrow> (Inl e, s1)
        | (Inr u, s1) \<Rightarrow>
            let to_block = next_to_block st current_block last_block
            in index_block_range (it_attempts it) self_chain (last_block + 1) to_block s1)
     else (Inr (), s))))"

text \<open>
  One turn: the \<open>try\<close> block with its two handlers. \<open>except asyncio.TimeoutError: continue\<close>
  comes first and ends the turn with the session as the exception left it, with no
  rollback; \<open>except Exception\<close> rolls back. (The wait that ends a turn without an
  exception leaves by the first handler too, and changes nothing.)
\<close>

definition run_iteration :: "iteration \<Rightarrow> string \<Rightarrow> settings \<Rightarrow> session \<Rightarrow> session" where
  "run_iteration it self_chain st s =
     (case run_try it self_chain st s of
        (Inl e, s') \<Rightarrow> if e = TimeoutError then s' else rollback s'
      | (Inr u, s') \<Rightarrow> s')"

text \<open>
  The loop runs one turn for each element of \<open>its\<close>: the turns taken until the stop event
  is set.
\<close>

fun run_loop :: "iteration list \<Rightarrow> string \<Rightarrow> settings \<Rightarrow> session \<Rightarrow> session" where
  "run_loop [] self_chain st s = s"
| "run_loop (it # its) self_chain st s = run_loop its self_chain st (run_iteration it self_chain st s)"

definition run :: "init \<Rightarrow> iteration list \<Rightarrow> string \<Rightarrow> settings \<Rightarrow> session \<Rightarrow> (error + unit) \<times> session" where
  "run ini its self_chain st s =
     (case initialize ini self_chain st s of
        (Inl e, s') \<Rightarrow> (Inl e, s')
      | (Inr u, s') \<Rightarrow> (Inr (), run_loop its self_chain st s'))"

section \<open>Properties of the ledger and of the cursor\<close>

text \<open>
  The invariant of a \<open>Stake\<close> row: the staked amount is a number, not negative, and the
  row is active exactly when it is positive.
\<close>

definition stake_invariant :: "stake \<Rightarrow> bool" where
  "stake_invariant r =
     (case py_int (s_staked_amount r) of
        Inl e \<Rightarrow> False
      | Inr n \<Rightarrow> 0 \<le> n \<and> (s_is_active r \<longleftrightarrow> 0 < n))"

text \<open>
  The amounts of an event are unsigned on the chain; a \<open>Staked\<close> event is moreover asked
  to have a positive amount.
\<close>

definition event_amount_ok :: "raw_event \<Rightarrow> bool" where
  "event_amount_ok event =
     (case a_amount (ev_args event) of
        None \<Rightarrow> True
      | Some amount \<Rightarrow> if ev_event event = ''Staked'' then 0 < amount else 0 \<le> amount)"

text \<open>
  The sums of the spec's replay property: all \<open>Staked\<close> amounts, all \<open>Withdrawn\<close> amounts.
\<close>

definition event_amount :: "raw_event \<Rightarrow> int" where
  "event_amount event = (case a_amount (ev_args event) of None \<Rightarrow> 0 | Some amount \<Rightarrow> amount)"

definition staked_total :: "raw_event list \<Rightarrow> int" where
  "staked_total events =
     sum_list (map event_amount (filter (\<lambda>event. ev_event event = ''Staked'') events))"

definition withdrawn_total :: "raw_event list \<Rightarrow> int" where
  "withdrawn_total events =
     sum_list (map event_amount (filter (\<lambda>event. ev_event event = ''Withdrawn'') events))"

text \<open>
  A \<open>Staked\<close> or \<open>Withdrawn\<close> event of one pool and user, with an amount that is not
  negative.
\<close>

definition row_event :: "int \<Rightarrow> string \<Rightarrow> raw_event \<Rightarrow> bool" where
  "row_event pool_id user event =
     ((ev_event event = ''Staked'' \<or> ev_event event = ''Withdrawn'')
      \<and> a_poolId (ev_args event) = pool_id
      \<and> py_lower (a_user (ev_args event)) = user
      \<and> (case a_amount (ev_args event) of None \<Rightarrow> False | Some amount \<Rightarrow> 0 \<le> amount))"

text \<open>
  The replay of a row's amount, one event after the other, each withdrawal floored at
  zero; and the sequences in which no withdrawal exceeds the amount staked at its time.
\<close>

definition balance_step :: "int \<Rightarrow> raw_event \<Rightarrow> int" where
  "balance_step n event =
     (if ev_event event = ''Staked'' then n + event_amount event
      else max 0 (n - event_amount event))"

fun replayed_amount :: "int \<Rightarrow> raw_event list \<Rightarrow> int" where
  "replayed_amount n [] = n"
| "replayed_amount n (event # events) = replayed_amount (balance_step n event) events"

fun never_overdrawn :: "int \<Rightarrow> raw_event list \<Rightarrow> bool" where
  "never_overdrawn n [] = True"
| "never_overdrawn n (event # events) =
     ((ev_event event = ''Staked'' \<or> event_amount event \<le> n)
      \<and> never_overdrawn (balance_step n event) events)"

text \<open>
  No cursor has decreased from \<open>d\<close> to \<open>d'\<close>: every \<open>IndexerState\<close> row of \<open>d\<close> is in \<open>d'\<close> at
  the same position, for the same chain, with a last block number at least as large.
\<close>

definition cursor_le :: "db \<Rightarrow> db \<Rightarrow> bool" where
  "cursor_le d d' =
     (length (indexer_states d) \<le> length (indexer_states d')
      \<and> list_all2 (\<lambda>r r'. i_chain r' = i_chain r \<and> i_last_block_number r \<le> i_last_block_number r')
           (indexer_states d) (take (length (indexer_states d)) (indexer_states d')))"

section \<open>Concrete states used in examples\<close>

definition example_stake :: stake where
  "example_stake =
     \<lparr>s_chain = ''sepolia'', s_pool_id = 1, s_user_address = ''0xab'',
      s_staked_amount = ''100'', s_pending_rewards = Some ''7'',
      s_last_stake_time = Some 1000000, s_unlock_time = Some 2000000, s_is_active = True\<rparr>"

definition example_db :: db where
  "example_db = \<lparr>pools = [], stakes = [example_stake], staking_events = [], indexer_states = []\<rparr>"

definition example_pool :: pool where
  "example_pool =
     \<lparr>p_id = 1, p_chain = ''sepolia'', p_pool_id = 1, p_staking_token = ''0x01'',
      p_reward_token = ''0x02'', p_reward_rate = ''3'', p_lock_duration = 86400,
      p_deposit_fee = 0, p_withdraw_fee = 0, p_is_active = True\<rparr>"

definition example_pool_db :: db where
  "example_pool_db = \<lparr>pools = [example_pool], stakes = [example_stake], staking_events = [], indexer_states = []\<rparr>"

definition keyed_pool_db :: db where
  "keyed_pool_db =
     \<lparr>pools = [example_pool\<lparr>p_id := 1, p_pool_id := 0\<rparr>], stakes = [], staking_events = [],
      indexer_states = []\<rparr>"

definition empty_db :: db where
  "empty_db = \<lparr>pools = [], stakes = [], staking_events = [], indexer_states = []\<rparr>"

definition staked_event :: "int \<Rightarrow> int \<Rightarrow> int \<Rightarrow> raw_event" where
  "staked_event amount block_number log_index =
     \<lparr>ev_event = ''Staked'',
      ev_args = \<lparr>a_user = ''0xAB'', a_poolId = 1, a_amount = Some amount, a_rewardAmount = None\<rparr>,
      ev_transactionHash = ''0x11'', ev_blockNumber = block_number, ev_logIndex = log_index\<rparr>"

definition withdrawn_event :: "int \<Rightarrow> int \<Rightarrow> int \<Rightarrow> raw_event" where
  "withdrawn_event amount block_number log_index =
     \<lparr>ev_event = ''Withdrawn'',
      ev_args = \<lparr>a_user = ''0xAB'', a_poolId = 1, a_amount = Some amount, a_rewardAmount = Some 0\<rparr>,
      ev_transactionHash = ''0x12'', ev_blockNumber = block_number, ev_logIndex = log_index\<rparr>"

definition example_node :: node where
  "example_node =
     \<lparr>eth_block_number = Inr 250,
      eth_get_block = (\<lambda>n. Inr (1700000000 + 12 * n)),
      get_logs = (\<lambda>name from_block to_block filters.
         if name = ''Staked'' then Inr [staked_event 10 5 2]
         else if name = ''Withdrawn'' then Inr [withdrawn_event 4 7 0]
         else if name = ''RewardClaimed'' then Inl Web3Error
         else Inr []),
      poolCount = Inr 0,
      getPool = (\<lambda>n. Inl Web3Error),
      getPoolAPY = (\<lambda>n. Inl Web3Error)\<rparr>"

definition pool_only_db :: db where
  "pool_only_db = \<lparr>pools = [example_pool], stakes = [], staking_events = [], indexer_states = []\<rparr>"

definition example_attempt :: attempt where
  "example_attempt =
     \<lparr>at_node = example_node,
      at_utcnow = (\<lambda>k. 1700000000000000),
      at_updated_at = 1700000000000000,
      at_db_fails = (\<lambda>k. False),
      at_update_fails = False,
      at_commit_fails = False\<rparr>"

definition zero_stake_db :: db where
  "zero_stake_db =
     \<lparr>pools = [example_pool],
      stakes = [example_stake\<lparr>s_staked_amount := ''0'', s_is_active := False\<rparr>],
      staking_events = [], indexer_states = []\<rparr>"

definition example_replay :: "raw_event list" where
  "example_replay = [staked_event 10 5 1, withdrawn_event 4 5 2, staked_event 5 7 0]"

definition overdrawn_replay :: "raw_event list" where
  "overdrawn_replay = [staked_event 10 5 1, withdrawn_event 20 5 2, staked_event 5 7 0]"

definition reward_claimed_event :: "int \<Rightarrow> int \<Rightarrow> int \<Rightarrow> raw_event" where
  "reward_claimed_event reward block_number log_index =
     \<lparr>ev_event = ''RewardClaimed'',
      ev_args = \<lparr>a_user = ''0xAB'', a_poolId = 1, a_amount = None, a_rewardAmount = Some reward\<rparr>,
      ev_transactionHash = ''0x13'', ev_blockNumber = block_number, ev_logIndex = log_index\<rparr>"

definition ordering_node :: node where
  "ordering_node =
     example_node\<lparr>get_logs := (\<lambda>name from_block to_block filters.
         if name = ''Staked'' then Inr [staked_event 10 5 2]
         else if name = ''Withdrawn'' then Inr [withdrawn_event 4 7 0]
         else if name = ''RewardClaimed'' then Inr [reward_claimed_event 3 5 1]
         else Inr [])\<rparr>"


definition cursor_db :: db where
  "cursor_db =
     \<lparr>pools = [example_pool], stakes = [], staking_events = [],
      indexer_states = [\<lparr>i_chain = ''sepolia'', i_last_block_number = 100,
                          i_is_syncing = None, i_updated_at = None\<rparr>]\<rparr>"

definition example_session :: session where
  "example_session = \<lparr>committed = cursor_db, working = cursor_db\<rparr>"

definition commit_failing_attempt :: attempt where
  "commit_failing_attempt = example_attempt\<lparr>at_commit_fails := True\<rparr>"

definition example_attempts :: "nat \<Rightarrow> attempt" where
  "example_attempts k = (if k = 0 then commit_failing_attempt else example_attempt)"

definition example_settings :: settings where
  "example_settings = \<lparr>INDEXER_BATCH_SIZE = 50, INDEXER_POLL_INTERVAL = 15, INDEX_START_BLOCK = 0\<rparr>"

definition example_sync :: sync where
  "example_sync =
     \<lparr>sy_node = example_node, sy_db_fails = (\<lambda>k. False), sy_commit_fails = False,
      sy_exception = DBAPIError\<rparr>"

definition example_iteration :: "int \<Rightarrow> iteration" where
  "example_iteration chain_head =
     \<lparr>it_select_fails = False,
      it_exception = DBAPIError,
      it_node = example_node\<lparr>eth_block_number := Inr chain_head\<rparr>,
      it_sync = example_sync,
      it_attempts = (\<lambda>k. example_attempt)\<rparr>"

definition negative_batch_settings :: settings where
  "negative_batch_settings = \<lparr>INDEXER_BATCH_SIZE = - 10, INDEXER_POLL_INTERVAL = 15, INDEX_START_BLOCK = 0\<rparr>"

definition failing_iteration :: iteration where
  "failing_iteration = (example_iteration 250)\<lparr>it_attempts := (\<lambda>k. commit_failing_attempt)\<rparr>"

definition pool_node :: node where
  "pool_node =
     example_node\<lparr>poolCount := Inr 1,
       getPool := (\<lambda>n. Inr \<lparr>pd_stakingToken = ''0x03'', pd_rewardToken = ''0x04'',
          pd_totalStaked = 0, pd_rewardRate = 2, pd_lockDuration = 3600, pd_lastUpdateTime = 0,
          pd_rewardPerTokenStored = 0, pd_isActive = True, pd_depositFee = 0,
          pd_withdrawFee = 0\<rparr>),
       getPoolAPY := (\<lambda>n. Inr 5)\<rparr>"

definition timed_out_iteration :: iteration where
  "timed_out_iteration =
     (example_iteration 250)\<lparr>it_sync :=
        \<lparr>sy_node = pool_node, sy_db_fails = (\<lambda>k. False), sy_commit_fails = True,
         sy_exception = TimeoutError\<rparr>\<rparr>"

definition example_init :: init where
  "example_init = \<lparr>in_select_fails = False, in_commit_fails = False\<rparr>"

section \<open>Decimal strings\<close>

lemma digit_char_is_digit: "d < 10 \<Longrightarrow> is_digit (digit_char d)"
  by (simp add: is_digit_def digit_char_def)

lemma digit_char_value: "d < 10 \<Longrightarrow> (of_char (digit_char d) :: nat) - 48 = d"
  by (simp add: digit_char_def)

lemma digits_of_nonempty: "digits_of n \<noteq> []"
  by (subst digits_of.simps) simp

lemma digits_of_all_digits: "list_all is_digit (digits_of n)"
proof (induction n rule: digits_of.induct)
  case (1 n)
  show ?case
  proof (cases "n < 10")
    case True
    then show ?thesis by (subst digits_of.simps) (simp add: digit_char_is_digit)
  next
    case False
    with 1 show ?thesis by (subst digits_of.simps) (simp add: digit_char_is_digit)
  qed
qed

lemma digits_value_snoc: "digits_value (ds @ [c]) = 10 * digits_value ds + (of_char c - 48)"
  by (simp add: digits_value_def)

lemma digits_value_digits_of: "digits_value (digits_of n) = n"
proof (induction n rule: digits_of.induct)
  case (1 n)
  show ?case
  proof (cases "n < 10")
    case True
    then show ?thesis by (subst digits_of.simps) (simp add: digits_value_def digit_char_value)
  next
    case False
    with 1 show ?thesis
      by (subst digits_of.simps) (simp add: digits_value_snoc digit_char_value)
  qed
qed

lemma parse_digits_digits_of: "parse_digits (digits_of n) = Inr n"
  by (simp add: parse_digits_def digits_of_nonempty digits_of_all_digits digits_value_digits_of)

lemma hd_digits_of_digit: "is_digit (hd (digits_of n))"
  using digits_of_all_digits [of n] digits_of_nonempty [of n]
  by (cases "digits_of n") simp_all

lemma is_digit_not_sign: "is_digit c \<Longrightarrow> c \<noteq> CHR ''-'' \<and> c \<noteq> CHR ''+''"
  by (auto simp: is_digit_def)

lemma py_int_py_str: "py_int (py_str i) = Inr i"
proof (cases "i < 0")
  case True
  then show ?thesis by (simp add: py_int_def py_str_def parse_digits_digits_of)
next
  case False
  obtain c cs where cs: "digits_of (nat i) = c # cs"
    using digits_of_nonempty [of "nat i"] by (cases "digits_of (nat i)") auto
  have "is_digit c" using hd_digits_of_digit [of "nat i"] cs by simp
  then have "c \<noteq> CHR ''-''" "c \<noteq> CHR ''+''" using is_digit_not_sign by auto
  moreover have "parse_digits (c # cs) = Inr (nat i)"
    using parse_digits_digits_of [of "nat i"] cs by simp
  ultimately show ?thesis using False cs by (simp add: py_int_def py_str_def)
qed

lemma py_int_zero: "py_int ''0'' = Inr 0"
  by (simp add: py_int_def parse_digits_def is_digit_def digits_value_def)

lemma py_str_zero: "py_str 0 = ''0''"
  by code_simp

section \<open>The \<open>Withdrawn\<close> rule\<close>

lemma select_stake_bound: "select_stake d ch pid usr = [i] \<Longrightarrow> i < length (stakes d)"
proof -
  assume "select_stake d ch pid usr = [i]"
  then have "i \<in> set (select_stake d ch pid usr)" by simp
  then show ?thesis by (simp add: select_stake_def)
qed

text \<open>
  C3: a \<open>Withdrawn\<close> event applied to the one existing row of its (chain, pool, user):
  when the staked amount minus the event's amount is at most 0, the row gets staked amount
  \<open>"0"\<close>, pending rewards \<open>"0"\<close> and is deactivated; otherwise the staked amount is
  decreased by the event's amount and the pending rewards are reset to \<open>"0"\<close>. The new
  staked amount is the difference floored at zero, so it is never negative.
\<close>

theorem withdraw_rule:
  assumes sel: "select_stake d self_chain pool_id user = [i]"
      and amt: "py_int (s_staked_amount (stakes d ! i)) = Inr n"
  shows "(n - amount \<le> 0 \<longrightarrow>
            handle_withdraw False self_chain pool_id user amount timestamp d =
              (Inr (), d\<lparr>stakes := (stakes d)[i := (stakes d ! i)
                 \<lparr>s_staked_amount := ''0'', s_pending_rewards := Some ''0'', s_is_active := False\<rparr>]\<rparr>))
       \<and> (n - amount > 0 \<longrightarrow>
            handle_withdraw False self_chain pool_id user amount timestamp d =
              (Inr (), d\<lparr>stakes := (stakes d)[i := (stakes d ! i)
                 \<lparr>s_staked_amount := py_str (n - amount), s_pending_rewards := Some ''0''\<rparr>]\<rparr>))
       \<and> py_int (s_staked_amount (stakes (snd (handle_withdraw False self_chain pool_id user amount timestamp d)) ! i))
            = Inr (max 0 (n - amount))"
proof -
  have i: "i < length (stakes d)" using sel by (rule select_stake_bound)
  show ?thesis
    using sel amt i
    by (simp add: handle_withdraw_def raise_or_def db_execute_def set_stake_def Let_def
          py_int_zero py_int_py_str max_def)
qed

lemma example_select: "select_stake example_db ''sepolia'' 1 ''0xab'' = [0]"
  by (simp add: select_stake_def example_db_def example_stake_def)

lemma example_amount: "py_int (s_staked_amount (stakes example_db ! 0)) = Inr 100"
  by (simp add: example_db_def example_stake_def py_int_def parse_digits_def is_digit_def digits_value_def)

theorem withdraw_rule_witness:
  "handle_withdraw False ''sepolia'' 1 ''0xab'' 150 5 example_db =
     (Inr (), example_db\<lparr>stakes := [example_stake
        \<lparr>s_staked_amount := ''0'', s_pending_rewards := Some ''0'', s_is_active := False\<rparr>]\<rparr>)
   \<and> handle_withdraw False ''sepolia'' 1 ''0xab'' 30 5 example_db =
     (Inr (), example_db\<lparr>stakes := [example_stake
        \<lparr>s_staked_amount := py_str 70, s_pending_rewards := Some ''0''\<rparr>]\<rparr>)"
  using withdraw_rule [OF example_select example_amount, of 150 5]
        withdraw_rule [OF example_select example_amount, of 30 5]
  by (simp add: example_db_def)

section \<open>The \<open>Staked\<close> rule\<close>

lemma filter_nth_conv: "filter P xs = map (nth xs) (filter (\<lambda>i. P (xs ! i)) [0..<length xs])"
proof -
  have "filter P xs = filter P (map (nth xs) [0..<length xs])" by (simp add: map_nth)
  also have "\<dots> = map (nth xs) (filter (P \<circ> nth xs) [0..<length xs])" by (simp only: filter_map)
  finally show ?thesis by (simp add: comp_def)
qed

lemma select_pool_id_conv:
  "select_pool_id d ch pid = map (\<lambda>i. p_id (pools d ! i)) (select_pool d ch pid)"
  unfolding select_pool_id_def select_pool_def
  by (subst filter_nth_conv) (simp add: comp_def)

text \<open>
  What the \<open>Staked\<close> rule does when its database round trips succeed, with the lock
  duration of the pool's row (seven days when the pool has no row) and the unlock time in
  range. When one row matches (chain, pool, user), its staked amount is increased by the
  event's amount, its last stake time is the event time, its unlock time the event time
  plus the lock duration, and it is active. When no row matches, a row with the event's
  amount is added under the key of the pool's row if that key is not zero, and nothing is
  added otherwise.
\<close>

theorem stake_rule:
  assumes pool: "select_pool d self_chain pool_id = ps" "length ps \<le> 1"
      and lock: "(case ps of [] \<Rightarrow> timedelta_days 7
                  | p # qs \<Rightarrow> timedelta_seconds (p_lock_duration (pools d ! p))) = Inr lock_duration"
      and unlock: "datetime_add timestamp lock_duration = Inr u"
  shows "(\<forall>i n. select_stake d self_chain pool_id user = [i]
              \<and> py_int (s_staked_amount (stakes d ! i)) = Inr n \<longrightarrow>
            handle_stake False self_chain pool_id user amount timestamp d =
              (Inr (), d\<lparr>stakes := (stakes d)[i := (stakes d ! i)
                 \<lparr>s_staked_amount := py_str (n + amount), s_last_stake_time := Some timestamp,
                  s_unlock_time := Some u, s_is_active := True\<rparr>]\<rparr>))
       \<and> (select_stake d self_chain pool_id user = [] \<longrightarrow>
            (\<forall>p. ps = [p] \<and> p_id (pools d ! p) \<noteq> 0 \<longrightarrow>
               handle_stake False self_chain pool_id user amount timestamp d =
                  (Inr (), d\<lparr>stakes := stakes d @
                    [\<lparr>s_chain = self_chain, s_pool_id = p_id (pools d ! p), s_user_address = user,
                      s_staked_amount = py_str amount, s_pending_rewards = None,
                      s_last_stake_time = Some timestamp, s_unlock_time = Some u,
                      s_is_active = True\<rparr>]\<rparr>))
          \<and> ((ps = [] \<or> (\<exists>p. ps = [p] \<and> p_id (pools d ! p) = 0)) \<longrightarrow>
               handle_stake False self_chain pool_id user amount timestamp d = (Inr (), d)))
       \<and> u = timestamp + lock_duration"
proof (intro conjI allI impI)
  fix i n
  assume h: "select_stake d self_chain pool_id user = [i]
              \<and> py_int (s_staked_amount (stakes d ! i)) = Inr n"
  then have i: "i < length (stakes d)" using select_stake_bound by blast
  consider "ps = []" | p where "ps = [p]"
    using pool(2) by (cases ps) (auto simp: Suc_le_eq)
  then show "handle_stake False self_chain pool_id user amount timestamp d =
              (Inr (), d\<lparr>stakes := (stakes d)[i := (stakes d ! i)
                 \<lparr>s_staked_amount := py_str (n + amount), s_last_stake_time := Some timestamp,
                  s_unlock_time := Some u, s_is_active := True\<rparr>]\<rparr>)"
    using h i pool(1) lock unlock
    by cases (simp_all add: handle_stake_def raise_or_def db_execute_def set_stake_def Let_def)
next
  fix p
  assume s: "select_stake d self_chain pool_id user = []"
     and p: "ps = [p] \<and> p_id (pools d ! p) \<noteq> 0"
  show "handle_stake False self_chain pool_id user amount timestamp d =
                  (Inr (), d\<lparr>stakes := stakes d @
                    [\<lparr>s_chain = self_chain, s_pool_id = p_id (pools d ! p), s_user_address = user,
                      s_staked_amount = py_str amount, s_pending_rewards = None,
                      s_last_stake_time = Some timestamp, s_unlock_time = Some u,
                      s_is_active = True\<rparr>]\<rparr>)"
    using s p pool(1) lock unlock
    by (simp add: handle_stake_def raise_or_def db_execute_def select_pool_id_conv)
next
  assume s: "select_stake d self_chain pool_id user = []"
     and p: "ps = [] \<or> (\<exists>p. ps = [p] \<and> p_id (pools d ! p) = 0)"
  show "handle_stake False self_chain pool_id user amount timestamp d = (Inr (), d)"
    using s p pool(1) lock unlock
    by (auto simp add: handle_stake_def raise_or_def db_execute_def select_pool_id_conv)
next
  show "u = timestamp + lock_duration"
    using unlock by (simp add: datetime_add_def split: if_splits)
qed

lemma example_pool_select: "select_pool example_pool_db ''sepolia'' 1 = [0]"
  by (simp add: select_pool_def example_pool_db_def example_pool_def)

lemma example_pool_stake_select: "select_stake example_pool_db ''sepolia'' 1 ''0xab'' = [0]"
  by (simp add: select_stake_def example_pool_db_def example_stake_def)

lemma example_pool_amount: "py_int (s_staked_amount (stakes example_pool_db ! 0)) = Inr 100"
  by (simp add: example_pool_db_def example_stake_def py_int_def parse_digits_def is_digit_def digits_value_def)

theorem stake_rule_witness:
  "handle_stake False ''sepolia'' 1 ''0xab'' 50 1000000 example_pool_db =
     (Inr (), example_pool_db\<lparr>stakes := [example_stake
        \<lparr>s_staked_amount := py_str 150, s_last_stake_time := Some 1000000,
         s_unlock_time := Some 86401000000, s_is_active := True\<rparr>]\<rparr>)"
proof -
  have 1: "select_pool example_pool_db ''sepolia'' 1 = [0]" by (rule example_pool_select)
  have 2: "length [0::nat] \<le> 1" by simp
  have 3: "(case [0::nat] of [] \<Rightarrow> timedelta_days 7
             | p # qs \<Rightarrow> timedelta_seconds (p_lock_duration (pools example_pool_db ! p))) = Inr 86400000000"
    by (simp add: timedelta_seconds_def example_pool_db_def example_pool_def)
  have 4: "datetime_add 1000000 86400000000 = Inr 86401000000"
    by (simp add: datetime_add_def datetime_min_def datetime_max_def)
  show ?thesis
    using stake_rule [OF 1 2 3 4, of "''0xab''" 50] example_pool_stake_select example_pool_amount
    by (simp add: example_pool_db_def)
qed

text \<open>
  C6: where a \<open>Staked\<close> event does not give the pair (pool, user) a row holding its amount.
  For a pool that has no \<open>Pool\<close> row, no \<open>Stake\<close> row exists and none is created. For a
  pool whose row has key 1 and on-chain id 0, the first \<open>Staked\<close> event (amount 10) adds a
  row under 1; the lookup by the on-chain id 0 does not find it, so a \<open>Withdrawn\<close> event
  of 4 leaves it at 10, and a second \<open>Staked\<close> event (amount 5) adds a second row instead
  of increasing the first.
\<close>

theorem staked_event_row_missing_or_lost:
  "handle_stake False ''sepolia'' 1 ''0xab'' 50 1000000 empty_db = (Inr (), empty_db)
   \<and> select_stake empty_db ''sepolia'' 1 ''0xab'' = []
   \<and> map (\<lambda>r. (s_pool_id r, s_staked_amount r))
         (stakes (snd (handle_stake False ''sepolia'' 0 ''0xab'' 10 1000000 keyed_pool_db)))
       = [(1, ''10'')]
   \<and> select_stake (snd (handle_stake False ''sepolia'' 0 ''0xab'' 10 1000000 keyed_pool_db))
         ''sepolia'' 0 ''0xab'' = []
   \<and> map (\<lambda>r. (s_pool_id r, s_staked_amount r))
         (stakes (snd (handle_withdraw False ''sepolia'' 0 ''0xab'' 4 2000000
            (snd (handle_stake False ''sepolia'' 0 ''0xab'' 10 1000000 keyed_pool_db)))))
       = [(1, ''10'')]
   \<and> map (\<lambda>r. (s_pool_id r, s_staked_amount r))
         (stakes (snd (handle_stake False ''sepolia'' 0 ''0xab'' 5 2000000
            (snd (handle_stake False ''sepolia'' 0 ''0xab'' 10 1000000 keyed_pool_db)))))
       = [(1, ''10''), (1, ''5'')]"
  by code_simp

section \<open>What a rule that returns has done\<close>

lemma scalar_one_or_none_cases:
  obtains "xs = []" "scalar_one_or_none xs = Inr None"
        | x where "xs = [x]" "scalar_one_or_none xs = Inr (Some x)"
        | "scalar_one_or_none xs = Inl MultipleResultsFound"
  by (cases xs rule: scalar_one_or_none.cases) auto

lemma handle_stake_returns:
  assumes "handle_stake fails self_chain pool_id user amount timestamp d = (Inr v, d')"
  obtains
    (update) i n u where "select_stake d self_chain pool_id user = [i]"
      "py_int (s_staked_amount (stakes d ! i)) = Inr n"
      "d' = d\<lparr>stakes := (stakes d)[i := (stakes d ! i)
                 \<lparr>s_staked_amount := py_str (n + amount), s_last_stake_time := Some timestamp,
                  s_unlock_time := Some u, s_is_active := True\<rparr>]\<rparr>"
  | (insert) key u where "select_stake d self_chain pool_id user = []"
      "d' = d\<lparr>stakes := stakes d @
                    [\<lparr>s_chain = self_chain, s_pool_id = key, s_user_address = user,
                      s_staked_amount = py_str amount, s_pending_rewards = None,
                      s_last_stake_time = Some timestamp, s_unlock_time = Some u,
                      s_is_active = True\<rparr>]\<rparr>"
  | (skip) "select_stake d self_chain pool_id user = []" "d' = d"
proof -
  have nf: "\<not> fails"
    using assms by (simp add: handle_stake_def raise_or_def db_execute_def split: if_splits)
  show ?thesis
  proof (cases "select_stake d self_chain pool_id user" rule: scalar_one_or_none_cases)
  case 1
  from assms have "d' = d \<or> (\<exists>key u. d' = d\<lparr>stakes := stakes d @
                    [\<lparr>s_chain = self_chain, s_pool_id = key, s_user_address = user,
                      s_staked_amount = py_str amount, s_pending_rewards = None,
                      s_last_stake_time = Some timestamp, s_unlock_time = Some u,
                      s_is_active = True\<rparr>]\<rparr>)"
    by (auto simp: nf 1(2) handle_stake_def raise_or_def db_execute_def
             split: sum.splits option.splits if_splits)
  with 1 show ?thesis using insert skip by blast
next
  case (2 i)
  then have i: "i < length (stakes d)" using select_stake_bound by blast
  from assms i have "\<exists>n u. py_int (s_staked_amount (stakes d ! i)) = Inr n \<and>
      d' = d\<lparr>stakes := (stakes d)[i := (stakes d ! i)
                 \<lparr>s_staked_amount := py_str (n + amount), s_last_stake_time := Some timestamp,
                  s_unlock_time := Some u, s_is_active := True\<rparr>]\<rparr>"
    by (auto simp: nf 2(2) handle_stake_def raise_or_def db_execute_def set_stake_def Let_def
             split: sum.splits option.splits if_splits)
  with 2 show ?thesis using update by blast
next
  case 3
  with assms show ?thesis
    by (simp add: handle_stake_def raise_or_def db_execute_def split: if_splits)
  qed
qed

lemma handle_withdraw_returns:
  assumes "handle_withdraw fails self_chain pool_id user amount timestamp d = (Inr v, d')"
  obtains
    (update) i n where "select_stake d self_chain pool_id user = [i]"
      "py_int (s_staked_amount (stakes d ! i)) = Inr n"
      "d' = d\<lparr>stakes := (stakes d)[i :=
              (if n - amount \<le> 0
               then (stakes d ! i)\<lparr>s_staked_amount := ''0'', s_pending_rewards := Some ''0'',
                                    s_is_active := False\<rparr>
               else (stakes d ! i)\<lparr>s_staked_amount := py_str (n - amount),
                                    s_pending_rewards := Some ''0''\<rparr>)]\<rparr>"
  | (skip) "select_stake d self_chain pool_id user = []" "d' = d"
proof -
  have nf: "\<not> fails"
    using assms by (simp add: handle_withdraw_def raise_or_def db_execute_def split: if_splits)
  show ?thesis
  proof (cases "select_stake d self_chain pool_id user" rule: scalar_one_or_none_cases)
  case 1
  from assms have "d' = d"
    by (auto simp: nf 1(2) handle_withdraw_def raise_or_def db_execute_def split: if_splits)
  with 1 show ?thesis using skip by blast
next
  case (2 i)
  then have i: "i < length (stakes d)" using select_stake_bound by blast
  from assms i have "\<exists>n. py_int (s_staked_amount (stakes d ! i)) = Inr n \<and>
      d' = d\<lparr>stakes := (stakes d)[i :=
              (if n - amount \<le> 0
               then (stakes d ! i)\<lparr>s_staked_amount := ''0'', s_pending_rewards := Some ''0'',
                                    s_is_active := False\<rparr>
               else (stakes d ! i)\<lparr>s_staked_amount := py_str (n - amount),
                                    s_pending_rewards := Some ''0''\<rparr>)]\<rparr>"
    by (auto simp: nf 2(2) handle_withdraw_def raise_or_def db_execute_def set_stake_def Let_def
             split: sum.splits if_splits)
  with 2 show ?thesis using update by blast
next
  case 3
  with assms show ?thesis
    by (simp add: handle_withdraw_def raise_or_def db_execute_def split: if_splits)
  qed
qed

lemma handle_emergency_withdraw_returns:
  assumes "handle_emergency_withdraw fails self_chain pool_id user amount d = (Inr v, d')"
  obtains
    (update) i where "select_stake d self_chain pool_id user = [i]"
      "d' = d\<lparr>stakes := (stakes d)[i := (stakes d ! i)
              \<lparr>s_staked_amount := ''0'', s_pending_rewards := Some ''0'', s_is_active := False\<rparr>]\<rparr>"
  | (skip) "select_stake d self_chain pool_id user = []" "d' = d"
proof -
  have nf: "\<not> fails"
    using assms by (simp add: handle_emergency_withdraw_def raise_or_def db_execute_def split: if_splits)
  show ?thesis
  proof (cases "select_stake d self_chain pool_id user" rule: scalar_one_or_none_cases)
  case 1
  from assms have "d' = d"
    by (auto simp: nf 1(2) handle_emergency_withdraw_def raise_or_def db_execute_def split: if_splits)
  with 1 show ?thesis using skip by blast
next
  case (2 i)
  then have i: "i < length (stakes d)" using select_stake_bound by blast
  from assms i have "d' = d\<lparr>stakes := (stakes d)[i := (stakes d ! i)
              \<lparr>s_staked_amount := ''0'', s_pending_rewards := Some ''0'', s_is_active := False\<rparr>]\<rparr>"
    by (auto simp: nf 2(2) handle_emergency_withdraw_def raise_or_def db_execute_def set_stake_def
             split: if_splits)
  with 2 show ?thesis using update by blast
next
  case 3
  with assms show ?thesis
    by (simp add: handle_emergency_withdraw_def raise_or_def db_execute_def split: if_splits)
  qed
qed

lemma handle_reward_claimed_returns:
  assumes "handle_reward_claimed fails self_chain pool_id user d = (Inr v, d')"
  obtains
    (update) i where "select_stake d self_chain pool_id user = [i]"
      "d' = d\<lparr>stakes := (stakes d)[i := (stakes d ! i)\<lparr>s_pending_rewards := Some ''0''\<rparr>]\<rparr>"
  | (skip) "select_stake d self_chain pool_id user = []" "d' = d"
proof -
  have nf: "\<not> fails"
    using assms by (simp add: handle_reward_claimed_def raise_or_def db_execute_def split: if_splits)
  show ?thesis
  proof (cases "select_stake d self_chain pool_id user" rule: scalar_one_or_none_cases)
  case 1
  from assms have "d' = d"
    by (auto simp: nf 1(2) handle_reward_claimed_def raise_or_def db_execute_def split: if_splits)
  with 1 show ?thesis using skip by blast
next
  case (2 i)
  then have i: "i < length (stakes d)" using select_stake_bound by blast
  from assms i have "d' = d\<lparr>stakes := (stakes d)[i := (stakes d ! i)\<lparr>s_pending_rewards := Some ''0''\<rparr>]\<rparr>"
    by (auto simp: nf 2(2) handle_reward_claimed_def raise_or_def db_execute_def set_stake_def
             split: if_splits)
  with 2 show ?thesis using update by blast
next
  case 3
  with assms show ?thesis
    by (simp add: handle_reward_claimed_def raise_or_def db_execute_def split: if_splits)
  qed
qed

lemma select_stake_cong: "stakes d1 = stakes d \<Longrightarrow> select_stake d1 ch pid usr = select_stake d ch pid usr"
  by (simp add: select_stake_def)

lemma invariant_update:
  assumes "list_all stake_invariant xs" "stake_invariant r"
  shows "list_all stake_invariant (xs[i := r])"
  using assms set_update_subset_insert [of xs i r] by (auto simp: list_all_iff)

lemma invariant_nth:
  "list_all stake_invariant xs \<Longrightarrow> i < length xs \<Longrightarrow> stake_invariant (xs ! i)"
  by (simp add: list_all_length)

lemma stake_invariant_zero:
  "stake_invariant (r\<lparr>s_staked_amount := ''0'', s_pending_rewards := p, s_is_active := False\<rparr>)"
  by (simp add: stake_invariant_def py_int_zero)

text \<open>
  C8: the invariant of a row is that its staked amount is a number that is not negative,
  and that the row is active exactly when the amount is positive. Every event that
  \<open>process_event\<close> handles without an exception (\<open>Staked\<close>, \<open>Withdrawn\<close>,
  \<open>EmergencyWithdrawn\<close>, \<open>RewardClaimed\<close>, or a name with no rule) keeps the invariant of
  every row, provided the amount of a \<open>Staked\<close> event is positive and the amount of any
  other event is not negative.
\<close>

theorem balance_rules_keep_invariant:
  assumes inv: "list_all stake_invariant (stakes d)"
      and ok: "event_amount_ok event"
      and ret: "process_event fails self_chain nd utcnow event d = (Inr v, d')"
  shows "list_all stake_invariant (stakes d')"
proof -
  define d1 where "d1 = d\<lparr>staking_events := staking_events d @
     [\<lparr>e_chain = self_chain, e_event_type = ev_event event, e_tx_hash = ev_transactionHash event,
       e_block_number = ev_blockNumber event, e_log_index = ev_logIndex event,
       e_pool_id = a_poolId (ev_args event), e_user_address = py_lower (a_user (ev_args event)),
       e_amount = map_option py_str (a_amount (ev_args event)),
       e_reward_amount = map_option py_str (a_rewardAmount (ev_args event)),
       e_timestamp = event_timestamp nd utcnow (ev_blockNumber event)\<rparr>]\<rparr>"
  have st: "stakes d1 = stakes d" by (simp add: d1_def)
  have inv1: "list_all stake_invariant (stakes d1)" using inv st by simp
  let ?ts = "event_timestamp nd utcnow (ev_blockNumber event)"
  let ?pid = "a_poolId (ev_args event)"
  let ?usr = "py_lower (a_user (ev_args event))"
  consider (staked) "ev_event event = ''Staked''"
    | (withdrawn) "ev_event event = ''Withdrawn''"
    | (emergency) "ev_event event = ''EmergencyWithdrawn''"
    | (claimed) "ev_event event = ''RewardClaimed''"
    | (other) "ev_event event \<noteq> ''Staked''" "ev_event event \<noteq> ''Withdrawn''"
        "ev_event event \<noteq> ''EmergencyWithdrawn''" "ev_event event \<noteq> ''RewardClaimed''"
    by blast
  then show ?thesis
  proof cases
    case staked
    with ret obtain amount where am: "a_amount (ev_args event) = Some amount"
      and h: "handle_stake fails self_chain ?pid ?usr amount ?ts d1 = (Inr v, d')"
      by (auto simp: process_event_def Let_def raise_or_def getattr_def d1_def split: option.splits)
    have pos: "0 < amount" using ok am staked by (simp add: event_amount_ok_def)
    from h show ?thesis
    proof (cases rule: handle_stake_returns)
      case (update i n u)
      have i: "i < length (stakes d1)" using update(1) by (rule select_stake_bound)
      have "stake_invariant (stakes d1 ! i)" using inv1 i by (rule invariant_nth)
      then have "0 \<le> n" using update(2) by (simp add: stake_invariant_def)
      then have "stake_invariant ((stakes d1 ! i)
                 \<lparr>s_staked_amount := py_str (n + amount), s_last_stake_time := Some ?ts,
                  s_unlock_time := Some u, s_is_active := True\<rparr>)"
        using pos by (simp add: stake_invariant_def py_int_py_str)
      then show ?thesis using update(3) inv1 by (simp add: invariant_update)
    next
      case (insert key u)
      then show ?thesis using inv1 pos by (simp add: stake_invariant_def py_int_py_str)
    next
      case skip
      then show ?thesis using inv1 by simp
    qed
  next
    case withdrawn
    with ret obtain amount where am: "a_amount (ev_args event) = Some amount"
      and h: "handle_withdraw fails self_chain ?pid ?usr amount ?ts d1 = (Inr v, d')"
      by (auto simp: process_event_def Let_def raise_or_def getattr_def d1_def split: option.splits)
    have pos: "0 \<le> amount" using ok am withdrawn by (simp add: event_amount_ok_def)
    from h show ?thesis
    proof (cases rule: handle_withdraw_returns)
      case (update i n)
      have i: "i < length (stakes d1)" using update(1) by (rule select_stake_bound)
      have "stake_invariant (stakes d1 ! i)" using inv1 i by (rule invariant_nth)
      then have old: "0 \<le> n" "s_is_active (stakes d1 ! i) \<longleftrightarrow> 0 < n"
        using update(2) by (simp_all add: stake_invariant_def)
      have "stake_invariant (if n - amount \<le> 0
               then (stakes d1 ! i)\<lparr>s_staked_amount := ''0'', s_pending_rewards := Some ''0'',
                                    s_is_active := False\<rparr>
               else (stakes d1 ! i)\<lparr>s_staked_amount := py_str (n - amount),
                                    s_pending_rewards := Some ''0''\<rparr>)"
        using old pos by (simp add: stake_invariant_def py_int_py_str py_int_zero)
      then show ?thesis using update(3) inv1 by (simp add: invariant_update)
    next
      case skip
      then show ?thesis using inv1 by simp
    qed
  next
    case emergency
    with ret obtain amount where
      h: "handle_emergency_withdraw fails self_chain ?pid ?usr amount d1 = (Inr v, d')"
      by (auto simp: process_event_def Let_def raise_or_def getattr_def d1_def split: option.splits)
    from h show ?thesis
    proof (cases rule: handle_emergency_withdraw_returns)
      case (update i)
      then show ?thesis using inv1 by (simp add: invariant_update stake_invariant_zero)
    next
      case skip
      then show ?thesis using inv1 by simp
    qed
  next
    case claimed
    with ret have
      h: "handle_reward_claimed fails self_chain ?pid ?usr d1 = (Inr v, d')"
      by (auto simp: process_event_def Let_def d1_def)
    from h show ?thesis
    proof (cases rule: handle_reward_claimed_returns)
      case (update i)
      have i: "i < length (stakes d1)" using update(1) by (rule select_stake_bound)
      have "stake_invariant (stakes d1 ! i)" using inv1 i by (rule invariant_nth)
      then have "stake_invariant ((stakes d1 ! i)\<lparr>s_pending_rewards := Some ''0''\<rparr>)"
        by (simp add: stake_invariant_def split: sum.splits)
      then show ?thesis using update(2) inv1 by (simp add: invariant_update)
    next
      case skip
      then show ?thesis using inv1 by simp
    qed
  next
    case other
    with ret have "d' = d1" by (simp add: process_event_def Let_def d1_def)
    then show ?thesis using inv1 by simp
  qed
qed

theorem balance_rules_keep_invariant_witness:
  "list_all stake_invariant
     (stakes (snd (process_event False ''sepolia'' example_node 5 (withdrawn_event 4 7 0) example_pool_db)))"
proof -
  have 1: "list_all stake_invariant (stakes example_pool_db)" by code_simp
  have 2: "event_amount_ok (withdrawn_event 4 7 0)" by code_simp
  have "fst (process_event False ''sepolia'' example_node 5 (withdrawn_event 4 7 0) example_pool_db) = Inr ()"
    by code_simp
  then have 3: "process_event False ''sepolia'' example_node 5 (withdrawn_event 4 7 0) example_pool_db =
      (Inr (), snd (process_event False ''sepolia'' example_node 5 (withdrawn_event 4 7 0) example_pool_db))"
    by (metis prod.collapse)
  show ?thesis using balance_rules_keep_invariant [OF 1 2 3] .
qed

text \<open>
  A \<open>Staked\<close> event of amount 0 for a pair that has no row: the rule returns, and the row
  it creates is active with staked amount 0.
\<close>

theorem zero_stake_breaks_invariant:
  "list_all stake_invariant (stakes pool_only_db)
   \<and> fst (process_event False ''sepolia'' example_node 5 (staked_event 0 5 2) pool_only_db) = Inr ()
   \<and> \<not> list_all stake_invariant
         (stakes (snd (process_event False ''sepolia'' example_node 5 (staked_event 0 5 2) pool_only_db)))"
  by code_simp

section \<open>Replay of one row\<close>

lemma select_stake_update:
  assumes "i < length (stakes d)"
      and "s_chain r = s_chain (stakes d ! i)" "s_pool_id r = s_pool_id (stakes d ! i)"
          "s_user_address r = s_user_address (stakes d ! i)"
  shows "select_stake (d\<lparr>stakes := (stakes d)[i := r]\<rparr>) ch pid usr = select_stake d ch pid usr"
  unfolding select_stake_def using assms
  by (auto intro!: filter_cong simp: nth_list_update)

lemma process_event_row_step:
  assumes sel: "select_stake d self_chain pool_id user = [i]"
      and amt: "py_int (s_staked_amount (stakes d ! i)) = Inr n"
      and ev: "row_event pool_id user event"
      and ret: "process_event fails self_chain nd utcnow event d = (Inr v, d')"
  shows "select_stake d' self_chain pool_id user = [i]
       \<and> py_int (s_staked_amount (stakes d' ! i)) = Inr (balance_step n event)"
proof -
  define d1 where "d1 = d\<lparr>staking_events := staking_events d @
     [\<lparr>e_chain = self_chain, e_event_type = ev_event event, e_tx_hash = ev_transactionHash event,
       e_block_number = ev_blockNumber event, e_log_index = ev_logIndex event,
       e_pool_id = a_poolId (ev_args event), e_user_address = py_lower (a_user (ev_args event)),
       e_amount = map_option py_str (a_amount (ev_args event)),
       e_reward_amount = map_option py_str (a_rewardAmount (ev_args event)),
       e_timestamp = event_timestamp nd utcnow (ev_blockNumber event)\<rparr>]\<rparr>"
  have st: "stakes d1 = stakes d" by (simp add: d1_def)
  have sel1: "select_stake d1 self_chain pool_id user = [i]"
    using sel select_stake_cong [OF st] by simp
  have amt1: "py_int (s_staked_amount (stakes d1 ! i)) = Inr n" using amt st by simp
  have i: "i < length (stakes d1)" using sel1 by (rule select_stake_bound)
  let ?ts = "event_timestamp nd utcnow (ev_blockNumber event)"
  obtain amount where am: "a_amount (ev_args event) = Some amount"
    using ev by (auto simp: row_event_def split: option.splits)
  have keys: "a_poolId (ev_args event) = pool_id" "py_lower (a_user (ev_args event)) = user"
    using ev by (simp_all add: row_event_def)
  have ea: "event_amount event = amount" using am by (simp add: event_amount_def)
  consider (staked) "ev_event event = ''Staked''" | (withdrawn) "ev_event event = ''Withdrawn''"
    using ev by (auto simp: row_event_def)
  then show ?thesis
  proof cases
    case staked
    with ret am keys have h: "handle_stake fails self_chain pool_id user amount ?ts d1 = (Inr v, d')"
      by (simp add: process_event_def Let_def raise_or_def getattr_def d1_def)
    from h show ?thesis
    proof (cases rule: handle_stake_returns)
      case (update j m u)
      with sel1 amt1 have jm: "j = i" "m = n" by simp_all
      have "select_stake d' self_chain pool_id user = select_stake d1 self_chain pool_id user"
        unfolding update(3) jm using i by (intro select_stake_update) simp_all
      moreover have "py_int (s_staked_amount (stakes d' ! i)) = Inr (n + amount)"
        unfolding update(3) jm using i by (simp add: py_int_py_str)
      ultimately show ?thesis using sel1 staked ea by (simp add: balance_step_def)
    next
      case (insert key u)
      with sel1 show ?thesis by simp
    next
      case skip
      with sel1 show ?thesis by simp
    qed
  next
    case withdrawn
    with ret am keys have h: "handle_withdraw fails self_chain pool_id user amount ?ts d1 = (Inr v, d')"
      by (simp add: process_event_def Let_def raise_or_def getattr_def d1_def)
    from h show ?thesis
    proof (cases rule: handle_withdraw_returns)
      case (update j m)
      with sel1 amt1 have jm: "j = i" "m = n" by simp_all
      have "select_stake d' self_chain pool_id user = select_stake d1 self_chain pool_id user"
        unfolding update(3) jm using i by (intro select_stake_update) simp_all
      moreover have "py_int (s_staked_amount (stakes d' ! i)) = Inr (max 0 (n - amount))"
        unfolding update(3) jm using i by (simp add: py_int_py_str py_int_zero max_def)
      ultimately show ?thesis using sel1 withdrawn ea by (simp add: balance_step_def)
    next
      case skip
      with sel1 show ?thesis by simp
    qed
  qed
qed

lemma process_events_row_replay:
  assumes "select_stake d self_chain pool_id user = [i]"
      and "py_int (s_staked_amount (stakes d ! i)) = Inr n"
      and "list_all (row_event pool_id user) events"
      and "process_events a self_chain k events d = (Inr v, d')"
  shows "select_stake d' self_chain pool_id user = [i]
       \<and> py_int (s_staked_amount (stakes d' ! i)) = Inr (replayed_amount n events)"
  using assms
proof (induction events arbitrary: d n k)
  case Nil
  then show ?case by simp
next
  case (Cons event events)
  obtain r d1 where p: "process_event (at_db_fails a k) self_chain (at_node a) (at_utcnow a k) event d = (r, d1)"
    by (cases "process_event (at_db_fails a k) self_chain (at_node a) (at_utcnow a k) event d")
  with Cons.prems(4) obtain u where r: "r = Inr u"
    and rest: "process_events a self_chain (Suc k) events d1 = (Inr v, d')"
    by (cases r) simp_all
  have ev: "row_event pool_id user event" and evs: "list_all (row_event pool_id user) events"
    using Cons.prems(3) by simp_all
  have step: "select_stake d1 self_chain pool_id user = [i]
       \<and> py_int (s_staked_amount (stakes d1 ! i)) = Inr (balance_step n event)"
    using process_event_row_step [OF Cons.prems(1) Cons.prems(2) ev] p r by simp
  show ?case
    using Cons.IH [OF conjunct1 [OF step] conjunct2 [OF step] evs rest] by simp
qed

lemma row_event_amount: "row_event pool_id user event \<Longrightarrow> 0 \<le> event_amount event"
  by (auto simp: row_event_def event_amount_def split: option.splits)

lemma row_event_kind:
  "row_event pool_id user event \<Longrightarrow> ev_event event \<noteq> ''Staked'' \<Longrightarrow> ev_event event = ''Withdrawn''"
  by (auto simp: row_event_def)

lemma staked_total_Cons:
  "staked_total (event # events) =
     (if ev_event event = ''Staked'' then event_amount event else 0) + staked_total events"
  by (simp add: staked_total_def)

lemma withdrawn_total_Cons:
  "withdrawn_total (event # events) =
     (if ev_event event = ''Withdrawn'' then event_amount event else 0) + withdrawn_total events"
  by (simp add: withdrawn_total_def)

lemma balance_step_nonneg:
  "0 \<le> n \<Longrightarrow> row_event pool_id user event \<Longrightarrow> 0 \<le> balance_step n event"
  using row_event_amount [of pool_id user event] by (simp add: balance_step_def)

lemma replayed_amount_lower:
  "0 \<le> n \<Longrightarrow> list_all (row_event pool_id user) events \<Longrightarrow>
   max 0 (n + staked_total events - withdrawn_total events) \<le> replayed_amount n events"
proof (induction events arbitrary: n)
  case Nil
  then show ?case by (simp add: staked_total_def withdrawn_total_def)
next
  case (Cons event events)
  then have ev: "row_event pool_id user event" and evs: "list_all (row_event pool_id user) events"
    by simp_all
  have "max 0 (balance_step n event + staked_total events - withdrawn_total events)
          \<le> replayed_amount (balance_step n event) events"
    using Cons.IH [OF balance_step_nonneg [OF Cons.prems(1) ev] evs] .
  moreover have "n + staked_total (event # events) - withdrawn_total (event # events)
          \<le> balance_step n event + staked_total events - withdrawn_total events"
    using row_event_kind [OF ev]
    by (auto simp: staked_total_Cons withdrawn_total_Cons balance_step_def)
  ultimately show ?case by simp
qed

lemma replayed_amount_upper:
  "0 \<le> n \<Longrightarrow> list_all (row_event pool_id user) events \<Longrightarrow>
   replayed_amount n events \<le> n + staked_total events"
proof (induction events arbitrary: n)
  case Nil
  then show ?case by (simp add: staked_total_def)
next
  case (Cons event events)
  then have ev: "row_event pool_id user event" and evs: "list_all (row_event pool_id user) events"
    by simp_all
  have "replayed_amount (balance_step n event) events \<le> balance_step n event + staked_total events"
    using Cons.IH [OF balance_step_nonneg [OF Cons.prems(1) ev] evs] .
  moreover have "balance_step n event + staked_total events \<le> n + staked_total (event # events)"
    using row_event_amount [OF ev] Cons.prems(1)
    by (auto simp: staked_total_Cons balance_step_def)
  ultimately show ?case by simp
qed

lemma replayed_amount_exact:
  "0 \<le> n \<Longrightarrow> list_all (row_event pool_id user) events \<Longrightarrow> never_overdrawn n events \<Longrightarrow>
   replayed_amount n events = n + staked_total events - withdrawn_total events
   \<and> 0 \<le> n + staked_total events - withdrawn_total events"
proof (induction events arbitrary: n)
  case Nil
  then show ?case by (simp add: staked_total_def withdrawn_total_def)
next
  case (Cons event events)
  then have ev: "row_event pool_id user event" and evs: "list_all (row_event pool_id user) events"
    and no: "never_overdrawn (balance_step n event) events"
    and here: "ev_event event = ''Staked'' \<or> event_amount event \<le> n"
    by simp_all
  have ih: "replayed_amount (balance_step n event) events =
              balance_step n event + staked_total events - withdrawn_total events
            \<and> 0 \<le> balance_step n event + staked_total events - withdrawn_total events"
    using Cons.IH [OF balance_step_nonneg [OF Cons.prems(1) ev] evs no] .
  have "balance_step n event + staked_total events - withdrawn_total events
          = n + staked_total (event # events) - withdrawn_total (event # events)"
    using row_event_kind [OF ev] here
    by (auto simp: staked_total_Cons withdrawn_total_Cons balance_step_def)
  with ih show ?case by simp
qed

text \<open>
  C1: a sequence of \<open>Staked\<close> and \<open>Withdrawn\<close> events for one (chain, pool, user), processed
  in order without an exception, starting from the one row of that triple with staked
  amount \<open>n\<close>. The staked amount afterwards is the replay that applies each event to the
  running amount and floors each withdrawal at zero. It is at least the sum of the
  \<open>Staked\<close> amounts minus the sum of the \<open>Withdrawn\<close> amounts floored at zero (counted from
  \<open>n\<close>), it never exceeds \<open>n\<close> plus the sum of the \<open>Staked\<close> amounts, and it equals the
  floored difference when no withdrawal exceeds the amount staked at its time.
\<close>

theorem replay_staked_amount:
  assumes "select_stake d self_chain pool_id user = [i]"
      and "py_int (s_staked_amount (stakes d ! i)) = Inr n"
      and "0 \<le> n"
      and "list_all (row_event pool_id user) events"
      and "process_events a self_chain k events d = (Inr v, d')"
  shows "py_int (s_staked_amount (stakes d' ! i)) = Inr (replayed_amount n events)
       \<and> max 0 (n + staked_total events - withdrawn_total events) \<le> replayed_amount n events
       \<and> replayed_amount n events \<le> n + staked_total events
       \<and> (never_overdrawn n events \<longrightarrow>
            replayed_amount n events = max 0 (n + staked_total events - withdrawn_total events))"
proof (intro conjI impI)
  show "py_int (s_staked_amount (stakes d' ! i)) = Inr (replayed_amount n events)"
    using process_events_row_replay [OF assms(1) assms(2) assms(4) assms(5)] by simp
  show "max 0 (n + staked_total events - withdrawn_total events) \<le> replayed_amount n events"
    using assms(3) assms(4) by (rule replayed_amount_lower)
  show "replayed_amount n events \<le> n + staked_total events"
    using assms(3) assms(4) by (rule replayed_amount_upper)
next
  assume "never_overdrawn n events"
  then show "replayed_amount n events = max 0 (n + staked_total events - withdrawn_total events)"
    using replayed_amount_exact [OF assms(3) assms(4)] by simp
qed

theorem replay_staked_amount_witness:
  "py_int (s_staked_amount
     (stakes (snd (process_events example_attempt ''sepolia'' 0 example_replay zero_stake_db)) ! 0)) = Inr 11
   \<and> max 0 (0 + staked_total example_replay - withdrawn_total example_replay) = 11"
proof -
  have 1: "select_stake zero_stake_db ''sepolia'' 1 ''0xab'' = [0]" by code_simp
  have 2: "py_int (s_staked_amount (stakes zero_stake_db ! 0)) = Inr 0" by code_simp
  have 3: "(0::int) \<le> 0" by simp
  have 4: "list_all (row_event 1 ''0xab'') example_replay" by code_simp
  have "fst (process_events example_attempt ''sepolia'' 0 example_replay zero_stake_db) = Inr ()"
    by code_simp
  then have 5: "process_events example_attempt ''sepolia'' 0 example_replay zero_stake_db =
      (Inr (), snd (process_events example_attempt ''sepolia'' 0 example_replay zero_stake_db))"
    by (metis prod.collapse)
  have 6: "replayed_amount 0 example_replay = 11" by code_simp
  have 7: "max 0 (0 + staked_total example_replay - withdrawn_total example_replay) = 11"
    by code_simp
  show ?thesis using replay_staked_amount [OF 1 2 3 4 5] 6 7 by simp
qed

text \<open>
  \<open>Staked 10\<close>, \<open>Withdrawn 20\<close>, \<open>Staked 5\<close> on a row with staked amount 0: the replay ends
  with 5, while the sum of the \<open>Staked\<close> amounts minus the sum of the \<open>Withdrawn\<close>
  amounts, floored at zero, is 0.
\<close>

theorem overdrawn_replay_differs:
  "py_int (s_staked_amount
     (stakes (snd (process_events example_attempt ''sepolia'' 0 overdrawn_replay zero_stake_db)) ! 0)) = Inr 5
   \<and> fst (process_events example_attempt ''sepolia'' 0 overdrawn_replay zero_stake_db) = Inr ()
   \<and> max 0 (staked_total overdrawn_replay - withdrawn_total overdrawn_replay) = 0"
  by code_simp

section \<open>Event order and failing kinds\<close>

lemma get_all_events_concat:
  "get_all_events nd from_block to_block =
     sort_key event_key
       (get_events nd ''Staked'' from_block to_block None
        @ get_events nd ''Withdrawn'' from_block to_block None
        @ get_events nd ''RewardClaimed'' from_block to_block None
        @ get_events nd ''EmergencyWithdrawn'' from_block to_block None)"
  by (simp add: get_all_events_def event_names_def)

text \<open>
  C4: \<open>get_all_events\<close> is the four kinds' events, in the order \<open>Staked\<close>, \<open>Withdrawn\<close>,
  \<open>RewardClaimed\<close>, \<open>EmergencyWithdrawn\<close>, sorted by (block number, log index): the result
  is ascending in that pair and has the same events, each as often. Events of blocks
  5, 7, 5 with log indices 2, 0, 1 come out as (5, 1), (5, 2), (7, 0).
\<close>

theorem get_all_events_sorted_union:
  "get_all_events nd from_block to_block =
     sort_key event_key
       (get_events nd ''Staked'' from_block to_block None
        @ get_events nd ''Withdrawn'' from_block to_block None
        @ get_events nd ''RewardClaimed'' from_block to_block None
        @ get_events nd ''EmergencyWithdrawn'' from_block to_block None)
   \<and> sorted (map event_key (get_all_events nd from_block to_block))
   \<and> mset (get_all_events nd from_block to_block) =
       mset (get_events nd ''Staked'' from_block to_block None)
       + mset (get_events nd ''Withdrawn'' from_block to_block None)
       + mset (get_events nd ''RewardClaimed'' from_block to_block None)
       + mset (get_events nd ''EmergencyWithdrawn'' from_block to_block None)
   \<and> map event_key
         (get_events ordering_node ''Staked'' 5 7 None @ get_events ordering_node ''Withdrawn'' 5 7 None
          @ get_events ordering_node ''RewardClaimed'' 5 7 None) = [(5, 2), (7, 0), (5, 1)]
   \<and> map event_key (get_all_events ordering_node 5 7) = [(5, 1), (5, 2), (7, 0)]"
proof (intro conjI)
  show "get_all_events nd from_block to_block =
     sort_key event_key
       (get_events nd ''Staked'' from_block to_block None
        @ get_events nd ''Withdrawn'' from_block to_block None
        @ get_events nd ''RewardClaimed'' from_block to_block None
        @ get_events nd ''EmergencyWithdrawn'' from_block to_block None)"
    by (rule get_all_events_concat)
  show "sorted (map event_key (get_all_events nd from_block to_block))"
    by (simp add: get_all_events_concat)
  show "mset (get_all_events nd from_block to_block) =
       mset (get_events nd ''Staked'' from_block to_block None)
       + mset (get_events nd ''Withdrawn'' from_block to_block None)
       + mset (get_events nd ''RewardClaimed'' from_block to_block None)
       + mset (get_events nd ''EmergencyWithdrawn'' from_block to_block None)"
    by (simp add: get_all_events_concat)
  show "map event_key
         (get_events ordering_node ''Staked'' 5 7 None @ get_events ordering_node ''Withdrawn'' 5 7 None
          @ get_events ordering_node ''RewardClaimed'' 5 7 None) = [(5, 2), (7, 0), (5, 1)]"
    by code_simp
  show "map event_key (get_all_events ordering_node 5 7) = [(5, 1), (5, 2), (7, 0)]"
    by code_simp
qed


lemma get_events_get_logs_cong:
  "get_logs nd' name = get_logs nd name \<Longrightarrow>
   get_events nd' name from_block to_block flt = get_events nd name from_block to_block flt"
  by (simp add: get_events_def)






section \<open>Atomic batches\<close>

lemma body_failure:
  assumes "index_block_range_body a self_chain from_block to_block s = (Inl e, s')"
  shows "committed s' = committed s \<and> working s' = committed s"
  using assms
  by (auto simp: index_block_range_body_def Let_def rollback_def commit_def
           split: prod.splits sum.splits if_splits)

lemma clean_session_eq:
  "working s = committed s \<Longrightarrow> committed s' = committed s \<Longrightarrow> working s' = committed s \<Longrightarrow>
   s' = (s :: session)"
  by (cases s, cases s') simp

lemma body_failure_clean:
  assumes "working s = committed s"
      and "index_block_range_body a self_chain from_block to_block s = (Inl e, s')"
  shows "s' = s"
  using body_failure [OF assms(2)] assms(1) by (intro clean_session_eq) simp_all

lemma retry_failure:
  assumes step: "\<And>k s e s'. body k s = (Inl e, s') \<Longrightarrow>
                   committed s' = committed s \<and> working s' = committed s"
      and "retry (Suc n) k body s = (Inl e, s')"
  shows "committed s' = committed s \<and> working s' = committed s"
  using assms(2)
proof (induction n arbitrary: k s)
  case 0
  then show ?case using step [of k s]
    by (auto split: prod.splits sum.splits)
next
  case (Suc n)
  obtain r s1 where b: "body k s = (r, s1)" by (cases "body k s")
  show ?case
  proof (cases r)
    case (Inl e1)
    with b Suc.prems have rest: "retry (Suc n) (Suc k) body s1 = (Inl e, s')" by simp
    have s1: "committed s1 = committed s \<and> working s1 = committed s"
      using step b Inl by blast
    show ?thesis using Suc.IH [OF rest] s1 by simp
  next
    case (Inr u)
    with b Suc.prems show ?thesis by simp
  qed
qed

lemma index_block_range_failure:
  assumes "index_block_range attempts self_chain from_block to_block s = (Inl e, s')"
  shows "committed s' = committed s \<and> working s' = committed s"
proof -
  have "retry (Suc 2) 0 (\<lambda>k. index_block_range_body (attempts k) self_chain from_block to_block) s
          = (Inl e, s')"
    using assms by (simp add: index_block_range_def numeral_3_eq_3)
  then show ?thesis
    by (rule retry_failure [rotated]) (rule body_failure)
qed

lemma index_block_range_clean:
  assumes clean: "working s = committed s"
  shows "index_block_range attempts self_chain from_block to_block s =
     (if \<not> isl (fst (index_block_range_body (attempts 0) self_chain from_block to_block s))
        then index_block_range_body (attempts 0) self_chain from_block to_block s
      else if \<not> isl (fst (index_block_range_body (attempts 1) self_chain from_block to_block s))
        then index_block_range_body (attempts 1) self_chain from_block to_block s
      else if \<not> isl (fst (index_block_range_body (attempts 2) self_chain from_block to_block s))
        then index_block_range_body (attempts 2) self_chain from_block to_block s
      else (Inl RetryError, s))"
proof -
  let ?b = "\<lambda>k. index_block_range_body (attempts k) self_chain from_block to_block"
  have fail: "?b k s = (Inl e, s') \<Longrightarrow> s' = s" for k e s'
    using clean by (rule body_failure_clean)
  have ok: "\<not> isl (fst (?b k s)) \<Longrightarrow> retry (Suc n) k ?b s = ?b k s" for k n
    by (cases "?b k s") (auto simp: isl_def split: sum.splits)
  have ko: "isl (fst (?b k s)) \<Longrightarrow> retry (Suc n) k ?b s = retry n (Suc k) ?b s" for k n
    using fail [of k] by (cases "?b k s") (auto simp: isl_def split: sum.splits)
  have unf: "index_block_range attempts self_chain from_block to_block s = retry (Suc (Suc (Suc 0))) 0 ?b s"
    by (simp add: index_block_range_def numeral_3_eq_3)
  have r0: "retry (Suc (Suc (Suc 0))) 0 ?b s =
      (if \<not> isl (fst (?b 0 s)) then ?b 0 s else retry (Suc (Suc 0)) (Suc 0) ?b s)"
    by (cases "isl (fst (?b 0 s))")
       (simp_all only: ok ko if_True if_False not_True_eq_False not_False_eq_True)
  have r1: "retry (Suc (Suc 0)) (Suc 0) ?b s =
      (if \<not> isl (fst (?b (Suc 0) s)) then ?b (Suc 0) s else retry (Suc 0) (Suc (Suc 0)) ?b s)"
    by (cases "isl (fst (?b (Suc 0) s))")
       (simp_all only: ok ko if_True if_False not_True_eq_False not_False_eq_True)
  have r2: "retry (Suc 0) (Suc (Suc 0)) ?b s =
      (if \<not> isl (fst (?b (Suc (Suc 0)) s)) then ?b (Suc (Suc 0)) s else (Inl RetryError, s))"
    by (cases "isl (fst (?b (Suc (Suc 0)) s))")
       (simp_all only: ok ko if_True if_False not_True_eq_False not_False_eq_True retry.simps(1))
  have n: "Suc 0 = 1" "Suc (Suc 0) = 2" "Suc 1 = 2" by simp_all
  have "index_block_range attempts self_chain from_block to_block s =
      (if \<not> isl (fst (?b 0 s)) then ?b 0 s
       else if \<not> isl (fst (?b (Suc 0) s)) then ?b (Suc 0) s
       else if \<not> isl (fst (?b (Suc (Suc 0)) s)) then ?b (Suc (Suc 0)) s
       else (Inl RetryError, s))"
    by (simp only: unf r0 r1 r2)
  then show ?thesis by (simp only: n)
qed

text \<open>
  C2: an attempt of \<open>index_block_range\<close> that raises leaves the committed database as it
  was and the session without uncommitted work; so does the retried function. From a
  session without uncommitted work the failed attempt leaves the session exactly as
  before the call, a later attempt runs as if the failed one had not happened, and the
  retried function gives what the first attempt that returns gives alone.
\<close>

theorem index_block_range_atomic:
  "(\<forall>e s'. index_block_range_body a self_chain from_block to_block s = (Inl e, s') \<longrightarrow>
       committed s' = committed s \<and> working s' = committed s
       \<and> (working s = committed s \<longrightarrow> s' = s
            \<and> index_block_range_body a2 self_chain from_block to_block s' =
                index_block_range_body a2 self_chain from_block to_block s))
   \<and> (\<forall>e s'. index_block_range attempts self_chain from_block to_block s = (Inl e, s') \<longrightarrow>
       committed s' = committed s \<and> working s' = committed s)
   \<and> (working s = committed s \<longrightarrow>
       index_block_range attempts self_chain from_block to_block s =
         (if \<not> isl (fst (index_block_range_body (attempts 0) self_chain from_block to_block s))
            then index_block_range_body (attempts 0) self_chain from_block to_block s
          else if \<not> isl (fst (index_block_range_body (attempts 1) self_chain from_block to_block s))
            then index_block_range_body (attempts 1) self_chain from_block to_block s
          else if \<not> isl (fst (index_block_range_body (attempts 2) self_chain from_block to_block s))
            then index_block_range_body (attempts 2) self_chain from_block to_block s
          else (Inl RetryError, s)))"
proof (intro conjI allI impI)
  fix e s'
  assume f: "index_block_range_body a self_chain from_block to_block s = (Inl e, s')"
  show "committed s' = committed s" "working s' = committed s"
    using body_failure [OF f] by simp_all
  assume c: "working s = committed s"
  show eq: "s' = s" using c f by (rule body_failure_clean)
  show "index_block_range_body a2 self_chain from_block to_block s' =
          index_block_range_body a2 self_chain from_block to_block s"
    by (simp only: eq)
next
  fix e s'
  assume f: "index_block_range attempts self_chain from_block to_block s = (Inl e, s')"
  show "committed s' = committed s" "working s' = committed s"
    using index_block_range_failure [OF f] by simp_all
next
  assume "working s = committed s"
  then show "index_block_range attempts self_chain from_block to_block s =
         (if \<not> isl (fst (index_block_range_body (attempts 0) self_chain from_block to_block s))
            then index_block_range_body (attempts 0) self_chain from_block to_block s
          else if \<not> isl (fst (index_block_range_body (attempts 1) self_chain from_block to_block s))
            then index_block_range_body (attempts 1) self_chain from_block to_block s
          else if \<not> isl (fst (index_block_range_body (attempts 2) self_chain from_block to_block s))
            then index_block_range_body (attempts 2) self_chain from_block to_block s
          else (Inl RetryError, s))"
    by (rule index_block_range_clean)
qed

theorem index_block_range_atomic_witness:
  "index_block_range_body commit_failing_attempt ''sepolia'' 101 150 example_session =
     (Inl DBAPIError, example_session)
   \<and> index_block_range example_attempts ''sepolia'' 101 150 example_session =
       index_block_range_body example_attempt ''sepolia'' 101 150 example_session
   \<and> map s_staked_amount (stakes (committed (snd
        (index_block_range example_attempts ''sepolia'' 101 150 example_session)))) = [''6'']"
proof -
  note t = index_block_range_atomic [of commit_failing_attempt "''sepolia''" 101 150
             example_session example_attempt example_attempts]
  have clean: "working example_session = committed example_session"
    by (simp add: example_session_def)
  have "fst (index_block_range_body commit_failing_attempt ''sepolia'' 101 150 example_session)
      = Inl DBAPIError"
    by code_simp
  then obtain s' where f: "index_block_range_body commit_failing_attempt ''sepolia'' 101 150 example_session
      = (Inl DBAPIError, s')"
    by (metis prod.collapse)
  have s': "s' = example_session"
    using t [THEN conjunct1, rule_format, OF f] clean by simp
  have a0: "isl (fst (index_block_range_body (example_attempts 0) ''sepolia'' 101 150 example_session))"
    using f by (simp add: example_attempts_def)
  have a1: "\<not> isl (fst (index_block_range_body (example_attempts 1) ''sepolia'' 101 150 example_session))"
    by code_simp
  have r: "index_block_range example_attempts ''sepolia'' 101 150 example_session =
       index_block_range_body example_attempt ''sepolia'' 101 150 example_session"
    using t [THEN conjunct2, THEN conjunct2, rule_format, OF clean] a0 a1
    by (simp add: example_attempts_def)
  have v: "map s_staked_amount (stakes (committed (snd
        (index_block_range_body example_attempt ''sepolia'' 101 150 example_session)))) = [''6'']"
    by code_simp
  show ?thesis using f s' r v by simp
qed

section \<open>The timestamp of an event\<close>










section \<open>The cursor\<close>

lemma handle_stake_indexer_states:
  "indexer_states (snd (handle_stake fails self_chain pool_id user amount timestamp d)) = indexer_states d"
  by (auto simp: handle_stake_def raise_or_def db_execute_def set_stake_def Let_def
           split: sum.splits option.splits if_splits)

lemma handle_withdraw_indexer_states:
  "indexer_states (snd (handle_withdraw fails self_chain pool_id user amount timestamp d)) = indexer_states d"
  by (auto simp: handle_withdraw_def raise_or_def db_execute_def set_stake_def Let_def
           split: sum.splits option.splits if_splits)

lemma handle_emergency_withdraw_indexer_states:
  "indexer_states (snd (handle_emergency_withdraw fails self_chain pool_id user amount d)) = indexer_states d"
  by (auto simp: handle_emergency_withdraw_def raise_or_def db_execute_def set_stake_def
           split: sum.splits option.splits if_splits)

lemma handle_reward_claimed_indexer_states:
  "indexer_states (snd (handle_reward_claimed fails self_chain pool_id user d)) = indexer_states d"
  by (auto simp: handle_reward_claimed_def raise_or_def db_execute_def set_stake_def
           split: sum.splits option.splits if_splits)

lemma process_event_indexer_states:
  "indexer_states (snd (process_event fails self_chain nd utcnow event d)) = indexer_states d"
  by (simp add: process_event_def Let_def raise_or_def getattr_def
        handle_stake_indexer_states handle_withdraw_indexer_states
        handle_emergency_withdraw_indexer_states handle_reward_claimed_indexer_states
      split: option.splits)

lemma process_events_indexer_states:
  "indexer_states (snd (process_events a self_chain k events d)) = indexer_states d"
proof (induction events arbitrary: k d)
  case Nil
  show ?case by simp
next
  case (Cons event events)
  obtain r d1 where p: "process_event (at_db_fails a k) self_chain (at_node a) (at_utcnow a k) event d = (r, d1)"
    by (cases "process_event (at_db_fails a k) self_chain (at_node a) (at_utcnow a k) event d")
  have d1: "indexer_states d1 = indexer_states d"
    using process_event_indexer_states [of "at_db_fails a k" self_chain "at_node a" "at_utcnow a k" event d] p
    by simp
  show ?case
  proof (cases r)
    case (Inl e)
    with p d1 show ?thesis by simp
  next
    case (Inr u)
    with p d1 Cons.IH [of "Suc k" d1] show ?thesis by simp
  qed
qed

lemma sync_pool_indexer_states:
  "indexer_states (snd (sync_pool exc fails self_chain nd pool_id d)) = indexer_states d"
  by (auto simp: sync_pool_def raise_or_def db_execute_raising_def
           split: sum.splits option.splits if_splits)

lemma sync_pool_range_indexer_states:
  "indexer_states (snd (sync_pool_range sy self_chain k pool_ids d)) = indexer_states d"
proof (induction pool_ids arbitrary: k d)
  case Nil
  show ?case by simp
next
  case (Cons pool_id pool_ids)
  obtain r d1 where p: "sync_pool (sy_exception sy) (sy_db_fails sy k) self_chain (sy_node sy) (int pool_id) d = (r, d1)"
    by (cases "sync_pool (sy_exception sy) (sy_db_fails sy k) self_chain (sy_node sy) (int pool_id) d")
  have d1: "indexer_states d1 = indexer_states d"
    using sync_pool_indexer_states [of "sy_exception sy" "sy_db_fails sy k" self_chain "sy_node sy" "int pool_id" d] p
    by simp
  show ?case
  proof (cases r)
    case (Inl e)
    with p d1 show ?thesis by simp
  next
    case (Inr u)
    with p d1 Cons.IH [of "Suc k" d1] show ?thesis by simp
  qed
qed

lemma sync_pools_result:
  assumes "sync_pools sy self_chain s = (r, s1)"
  shows "indexer_states (working s1) = indexer_states (working s)
       \<and> (case r of Inl e \<Rightarrow> committed s1 = committed s | Inr u \<Rightarrow> committed s1 = working s1)"
proof -
  let ?p = "sync_pool_range sy self_chain 0 [0..<nat (get_pool_count (sy_node sy))] (working s)"
  have i: "indexer_states (snd ?p) = indexer_states (working s)"
    by (rule sync_pool_range_indexer_states)
  obtain q d1 where p: "?p = (q, d1)" by (cases ?p)
  with i have d1: "indexer_states d1 = indexer_states (working s)" by simp
  show ?thesis
    using assms p d1
    by (auto simp: sync_pools_def Let_def commit_def split: sum.splits if_splits)
qed

lemma body_success:
  assumes "index_block_range_body a self_chain from_block to_block s = (Inr u, s')"
  shows "working s' = committed s'
       \<and> indexer_states (committed s') =
           indexer_states (update_indexer_state self_chain to_block (at_updated_at a) (working s))"
proof -
  let ?p = "process_events a self_chain 0 (get_all_events (at_node a) from_block to_block) (working s)"
  have i: "indexer_states (snd ?p) = indexer_states (working s)"
    by (rule process_events_indexer_states)
  obtain q d1 where p: "?p = (q, d1)" by (cases ?p)
  with i have d1: "indexer_states d1 = indexer_states (working s)" by simp
  show ?thesis
    using assms p d1
    by (auto simp: index_block_range_body_def Let_def commit_def rollback_def update_indexer_state_def
             split: sum.splits if_splits)
qed

lemma index_block_range_success:
  assumes clean: "working s = committed s"
      and ret: "index_block_range attempts self_chain from_block to_block s = (Inr u, s')"
  shows "working s' = committed s'
       \<and> (\<exists>now. indexer_states (committed s') =
           indexer_states (update_indexer_state self_chain to_block now (working s)))"
proof -
  let ?b = "\<lambda>k. index_block_range_body (attempts k) self_chain from_block to_block s"
  have "\<exists>k. ?b k = (Inr u, s')"
    using ret unfolding index_block_range_clean [OF clean]
    by (auto split: if_splits)
  then obtain k where "?b k = (Inr u, s')" ..
  from body_success [OF this] show ?thesis by blast
qed





lemma update_indexer_state_cong:
  "indexer_states d1 = indexer_states d \<Longrightarrow>
   indexer_states (update_indexer_state ch to_block now d1) =
   indexer_states (update_indexer_state ch to_block now d)"
  by (simp add: update_indexer_state_def)

lemma run_try_batch:
  assumes sel: "select_indexer_state (working s) self_chain = [j]"
      and nofail: "\<not> it_select_fails it"
      and head: "get_block_number (it_node it) = Inr current_block"
      and behind: "i_last_block_number (indexer_states (working s) ! j) < current_block"
  shows "run_try it self_chain st s =
           (case sync_pools (it_sync it) self_chain s of
              (Inl e, s1) \<Rightarrow> (Inl e, s1)
            | (Inr u, s1) \<Rightarrow>
                index_block_range (it_attempts it) self_chain
                  (i_last_block_number (indexer_states (working s) ! j) + 1)
                  (min (current_block - 1)
                       (i_last_block_number (indexer_states (working s) ! j) + INDEXER_BATCH_SIZE st))
                  s1)"
  using assms
  by (simp add: run_try_def raise_or_def db_execute_raising_def Let_def next_to_block_def
        split: prod.splits sum.splits)

lemma run_try_idle:
  assumes sel: "select_indexer_state (working s) self_chain = [j]"
      and nofail: "\<not> it_select_fails it"
      and head: "get_block_number (it_node it) = Inr current_block"
      and behind: "current_block \<le> i_last_block_number (indexer_states (working s) ! j)"
  shows "run_try it self_chain st s = (Inr (), s)"
  using assms
  by (simp add: run_try_def raise_or_def db_execute_raising_def Let_def)

lemma run_try_batch_cursor:
  assumes sel: "select_indexer_state (working s) self_chain = [j]"
      and nofail: "\<not> it_select_fails it"
      and head: "get_block_number (it_node it) = Inr current_block"
      and behind: "i_last_block_number (indexer_states (working s) ! j) < current_block"
      and ret: "run_try it self_chain st s = (Inr v, s')"
  shows "working s' = committed s'
       \<and> (\<exists>now. indexer_states (committed s') =
             indexer_states (update_indexer_state self_chain
               (next_to_block st current_block (i_last_block_number (indexer_states (working s) ! j)))
               now (working s)))"
proof -
  let ?last = "i_last_block_number (indexer_states (working s) ! j)"
  obtain r s1 where sy: "sync_pools (it_sync it) self_chain s = (r, s1)"
    by (cases "sync_pools (it_sync it) self_chain s")
  have run: "run_try it self_chain st s =
           (case sync_pools (it_sync it) self_chain s of
              (Inl e, s1) \<Rightarrow> (Inl e, s1)
            | (Inr u, s1) \<Rightarrow>
                index_block_range (it_attempts it) self_chain (?last + 1)
                  (min (current_block - 1) (?last + INDEXER_BATCH_SIZE st)) s1)"
    using sel nofail head behind by (rule run_try_batch)
  from ret run sy obtain u where r: "r = Inr u"
    and ib: "index_block_range (it_attempts it) self_chain (?last + 1)
               (next_to_block st current_block ?last) s1 = (Inr v, s')"
    by (cases r) (simp_all add: next_to_block_def)
  have s1: "indexer_states (working s1) = indexer_states (working s)" "committed s1 = working s1"
    using sync_pools_result [OF sy] r by simp_all
  have clean: "working s1 = committed s1" using s1(2) by simp
  from index_block_range_success [OF clean ib] obtain now where
    w: "working s' = committed s'" and
    c: "indexer_states (committed s') =
           indexer_states (update_indexer_state self_chain (next_to_block st current_block ?last) now (working s1))"
    by blast
  have "indexer_states (committed s') =
           indexer_states (update_indexer_state self_chain (next_to_block st current_block ?last) now (working s))"
    using c update_indexer_state_cong [OF s1(1)] by simp
  with w show ?thesis by blast
qed




lemma cursor_le_nth:
  "cursor_le d d' \<longleftrightarrow>
     length (indexer_states d) \<le> length (indexer_states d')
     \<and> (\<forall>k < length (indexer_states d).
           i_chain (indexer_states d' ! k) = i_chain (indexer_states d ! k)
           \<and> i_last_block_number (indexer_states d ! k) \<le> i_last_block_number (indexer_states d' ! k))"
  by (auto simp: cursor_le_def list_all2_conv_all_nth)

lemma cursor_le_same: "indexer_states d' = indexer_states d \<Longrightarrow> cursor_le d d'"
  by (simp add: cursor_le_nth)

lemma cursor_le_trans:
  assumes 12: "cursor_le d1 d2" and 23: "cursor_le d2 d3"
  shows "cursor_le d1 d3"
proof -
  have l: "length (indexer_states d1) \<le> length (indexer_states d2)"
          "length (indexer_states d2) \<le> length (indexer_states d3)"
    using 12 23 by (simp_all add: cursor_le_nth)
  have "i_chain (indexer_states d3 ! k) = i_chain (indexer_states d1 ! k)
        \<and> i_last_block_number (indexer_states d1 ! k) \<le> i_last_block_number (indexer_states d3 ! k)"
    if k: "k < length (indexer_states d1)" for k
  proof -
    have k2: "k < length (indexer_states d2)" using k l(1) by simp
    have a: "i_chain (indexer_states d2 ! k) = i_chain (indexer_states d1 ! k)"
            "i_last_block_number (indexer_states d1 ! k) \<le> i_last_block_number (indexer_states d2 ! k)"
      using 12 k by (simp_all add: cursor_le_nth)
    have b: "i_chain (indexer_states d3 ! k) = i_chain (indexer_states d2 ! k)"
            "i_last_block_number (indexer_states d2 ! k) \<le> i_last_block_number (indexer_states d3 ! k)"
      using 23 k2 by (simp_all add: cursor_le_nth)
    show ?thesis using a b by simp
  qed
  then show ?thesis using l by (simp add: cursor_le_nth)
qed

lemma cursor_le_append: "indexer_states d' = indexer_states d @ rs \<Longrightarrow> cursor_le d d'"
  by (simp add: cursor_le_nth nth_append)

lemma select_indexer_state_only:
  assumes "select_indexer_state d ch = [j]" "k < length (indexer_states d)"
          "i_chain (indexer_states d ! k) = ch"
  shows "k = j"
proof -
  have "k \<in> set (select_indexer_state d ch)"
    using assms(2,3) by (simp add: select_indexer_state_def)
  then show ?thesis using assms(1) by simp
qed

lemma cursor_le_update:
  assumes sel: "select_indexer_state d ch = [j]"
      and le: "i_last_block_number (indexer_states d ! j) \<le> to_block"
      and upd: "indexer_states d' = indexer_states (update_indexer_state ch to_block now d)"
  shows "cursor_le d d'"
  unfolding cursor_le_nth upd
proof (intro conjI allI impI)
  show "length (indexer_states d) \<le> length (indexer_states (update_indexer_state ch to_block now d))"
    by (simp add: update_indexer_state_def)
next
  fix k assume k: "k < length (indexer_states d)"
  show "i_chain (indexer_states (update_indexer_state ch to_block now d) ! k) = i_chain (indexer_states d ! k)"
    using k by (simp add: update_indexer_state_def)
  show "i_last_block_number (indexer_states d ! k)
          \<le> i_last_block_number (indexer_states (update_indexer_state ch to_block now d) ! k)"
  proof (cases "i_chain (indexer_states d ! k) = ch")
    case True
    then have "k = j" using sel k by (intro select_indexer_state_only)
    then show ?thesis using k True le by (simp add: update_indexer_state_def)
  next
    case False
    then show ?thesis using k by (simp add: update_indexer_state_def)
  qed
qed

lemma scalar_one_Inr: "scalar_one xs = Inr x \<Longrightarrow> xs = [x]"
  by (cases xs rule: scalar_one.cases) simp_all

lemma next_to_block_ge:
  "0 \<le> INDEXER_BATCH_SIZE st \<Longrightarrow> last_block < current_block \<Longrightarrow>
   last_block \<le> next_to_block st current_block last_block"
  by (simp add: next_to_block_def)

lemma cursor_le_left:
  "indexer_states d = indexer_states e \<Longrightarrow> cursor_le d x \<Longrightarrow> cursor_le e x"
  by (simp add: cursor_le_def)

lemma run_try_step:
  assumes cc: "indexer_states (working s) = indexer_states (committed s)"
      and batch: "0 \<le> INDEXER_BATCH_SIZE st"
      and rt: "run_try it self_chain st s = (r, s')"
  shows "indexer_states (working s') = indexer_states (committed s')
       \<and> cursor_le (committed s) (committed s')"
proof -
  have same: "indexer_states (working s') = indexer_states (committed s')
       \<and> cursor_le (committed s) (committed s')" if "s' = s"
    using that cc by (simp add: cursor_le_same)
  let ?sel = "select_indexer_state (working s) self_chain"
  show ?thesis
  proof (cases "it_select_fails it")
    case True
    then have "s' = s"
      using rt by (simp add: run_try_def raise_or_def db_execute_raising_def)
    then show ?thesis by (rule same)
  next
    case nofail: False
    show ?thesis
    proof (cases "scalar_one ?sel")
      case (Inl e)
      then have "s' = s"
        using nofail rt by (simp add: run_try_def raise_or_def db_execute_raising_def)
      then show ?thesis by (rule same)
    next
      case (Inr j)
      then have sel: "?sel = [j]" by (rule scalar_one_Inr)
      show ?thesis
      proof (cases "get_block_number (it_node it)")
        case (Inl e)
        then have "s' = s"
          using nofail Inr rt by (simp add: run_try_def raise_or_def db_execute_raising_def)
        then show ?thesis by (rule same)
      next
        case head: (Inr current_block)
        let ?last = "i_last_block_number (indexer_states (working s) ! j)"
        show ?thesis
        proof (cases "?last < current_block")
          case False
          then have "run_try it self_chain st s = (Inr (), s)"
            using run_try_idle [OF sel nofail head] by simp
          then have "s' = s" using rt by simp
          then show ?thesis by (rule same)
        next
          case behind: True
          show ?thesis
          proof (cases r)
            case (Inr v)
            with rt have ret: "run_try it self_chain st s = (Inr v, s')" by simp
            from run_try_batch_cursor [OF sel nofail head behind ret] obtain now where
              w: "working s' = committed s'" and
              c: "indexer_states (committed s') =
                    indexer_states (update_indexer_state self_chain
                      (next_to_block st current_block ?last) now (working s))"
              by blast
            have "cursor_le (working s) (committed s')"
              using sel next_to_block_ge [OF batch behind] c by (rule cursor_le_update)
            then have "cursor_le (committed s) (committed s')"
              using cc by (rule cursor_le_left [rotated])
            then show ?thesis using w by simp
          next
            case (Inl e)
            with rt have ret: "run_try it self_chain st s = (Inl e, s')" by simp
            obtain q s1 where sy: "sync_pools (it_sync it) self_chain s = (q, s1)"
              by (cases "sync_pools (it_sync it) self_chain s")
            have is1: "indexer_states (working s1) = indexer_states (working s)"
              using sync_pools_result [OF sy] by simp
            have "indexer_states (committed s') = indexer_states (committed s)
                  \<and> indexer_states (working s') = indexer_states (committed s)"
            proof (cases q)
              case (Inl e1)
              then have "s' = s1" "committed s1 = committed s"
                using ret sy run_try_batch [OF sel nofail head behind, of st] sync_pools_result [OF sy]
                by simp_all
              then show ?thesis using is1 cc by simp
            next
              case (Inr u)
              then have c1: "committed s1 = working s1"
                using sync_pools_result [OF sy] by simp
              have "index_block_range (it_attempts it) self_chain (?last + 1)
                      (min (current_block - 1) (?last + INDEXER_BATCH_SIZE st)) s1 = (Inl e, s')"
                using ret sy Inr run_try_batch [OF sel nofail head behind, of st] by simp
              then have "committed s' = committed s1 \<and> working s' = committed s1"
                by (rule index_block_range_failure)
              then show ?thesis using c1 is1 cc by simp
            qed
            then show ?thesis by (simp add: cursor_le_same)
          qed
        qed
      qed
    qed
  qed
qed

lemma run_iteration_step:
  assumes cc: "indexer_states (working s) = indexer_states (committed s)"
      and batch: "0 \<le> INDEXER_BATCH_SIZE st"
  shows "indexer_states (working (run_iteration it self_chain st s)) =
           indexer_states (committed (run_iteration it self_chain st s))
       \<and> cursor_le (committed s) (committed (run_iteration it self_chain st s))"
proof -
  obtain r s' where rt: "run_try it self_chain st s = (r, s')"
    by (cases "run_try it self_chain st s")
  have h: "indexer_states (working s') = indexer_states (committed s')"
          "cursor_le (committed s) (committed s')"
    using run_try_step [OF cc batch rt] by simp_all
  have "run_iteration it self_chain st s = s' \<or> run_iteration it self_chain st s = rollback s'"
    using rt by (cases r) (simp_all add: run_iteration_def)
  then show ?thesis
    using h by (auto simp: rollback_def)
qed

lemma run_loop_steps:
  assumes "indexer_states (working s) = indexer_states (committed s)" "0 \<le> INDEXER_BATCH_SIZE st"
  shows "indexer_states (working (run_loop its self_chain st s)) =
           indexer_states (committed (run_loop its self_chain st s))
       \<and> cursor_le (committed s) (committed (run_loop its self_chain st s))"
  using assms(1)
proof (induction its arbitrary: s)
  case Nil
  then show ?case by (simp add: cursor_le_same)
next
  case (Cons it its)
  let ?s1 = "run_iteration it self_chain st s"
  have 1: "indexer_states (working ?s1) = indexer_states (committed ?s1)"
          "cursor_le (committed s) (committed ?s1)"
    using run_iteration_step [OF Cons.prems assms(2)] by simp_all
  have 2: "indexer_states (working (run_loop its self_chain st ?s1)) =
             indexer_states (committed (run_loop its self_chain st ?s1))"
          "cursor_le (committed ?s1) (committed (run_loop its self_chain st ?s1))"
    using Cons.IH [OF 1(1)] by simp_all
  show ?case using 2 cursor_le_trans [OF 1(2) 2(2)] by simp
qed

lemma initialize_step:
  assumes cc: "indexer_states (working s) = indexer_states (committed s)"
      and ret: "initialize ini self_chain st s = (r, s')"
  shows "cursor_le (committed s) (committed s')
       \<and> (\<not> isl r \<longrightarrow> indexer_states (working s') = indexer_states (committed s'))"
proof -
  have "s' = s \<or> (committed s' = committed s)
        \<or> (working s' = committed s' \<and> (\<exists>row. indexer_states (committed s') = indexer_states (working s) @ [row]))"
    using ret
    by (auto simp: initialize_def raise_or_def db_execute_def commit_def Let_def
             split: sum.splits option.splits if_splits)
  moreover have "\<not> isl r \<longrightarrow> indexer_states (working s') = indexer_states (committed s')"
    using ret cc
    by (auto simp: initialize_def raise_or_def db_execute_def commit_def Let_def
             split: sum.splits option.splits if_splits)
  ultimately show ?thesis
    using cc by (auto simp: cursor_le_same intro: cursor_le_append)
qed

text \<open>
  C9: the cursor never decreases means that every \<open>IndexerState\<close> row is still there, with
  its chain and a last block number at least as large. When the engine starts from a
  session with no uncommitted change of an \<open>IndexerState\<close> row and the batch size is not
  negative, this holds for the committed database across \<open>initialize\<close>, across one turn of
  the loop (a successful batch, a failed and rolled-back batch, an idle turn, a turn ended
  by a timeout without rollback), across any number of turns, and across \<open>run\<close>; a turn
  leaves no uncommitted change of an \<open>IndexerState\<close> row behind.
\<close>

theorem cursor_never_decreases:
  assumes cc: "indexer_states (working s) = indexer_states (committed s)"
      and batch: "0 \<le> INDEXER_BATCH_SIZE st"
  shows "cursor_le (committed s) (committed (snd (initialize ini self_chain st s)))
       \<and> cursor_le (committed s) (committed (run_iteration it self_chain st s))
       \<and> indexer_states (working (run_iteration it self_chain st s)) =
           indexer_states (committed (run_iteration it self_chain st s))
       \<and> cursor_le (committed s) (committed (run_loop its self_chain st s))
       \<and> cursor_le (committed s) (committed (snd (run ini its self_chain st s)))"
proof -
  obtain r s1 where i: "initialize ini self_chain st s = (r, s1)"
    by (cases "initialize ini self_chain st s")
  have i1: "cursor_le (committed s) (committed s1)"
           "\<not> isl r \<longrightarrow> indexer_states (working s1) = indexer_states (committed s1)"
    using initialize_step [OF cc i] by simp_all
  have "cursor_le (committed s) (committed (snd (run ini its self_chain st s)))"
  proof (cases r)
    case (Inl e)
    then show ?thesis using i i1 by (simp add: run_def)
  next
    case (Inr u)
    then have c1: "indexer_states (working s1) = indexer_states (committed s1)" using i1(2) by simp
    have "cursor_le (committed s1) (committed (run_loop its self_chain st s1))"
      using run_loop_steps [OF c1 batch] by simp
    then show ?thesis using i Inr cursor_le_trans [OF i1(1)] by (simp add: run_def)
  qed
  then show ?thesis
    using i i1(1) run_iteration_step [OF cc batch] run_loop_steps [OF cc batch] by simp
qed

theorem cursor_never_decreases_witness:
  "cursor_le (committed example_session)
     (committed (run_iteration failing_iteration ''sepolia'' example_settings example_session))
   \<and> cursor_le (committed example_session)
     (committed (snd (run example_init [failing_iteration, timed_out_iteration, example_iteration 250]
        ''sepolia'' example_settings example_session)))
   \<and> map i_last_block_number (indexer_states (committed
        (run_iteration (example_iteration 250) ''sepolia'' example_settings
          (run_iteration timed_out_iteration ''sepolia'' example_settings example_session)))) = [150]
   \<and> length (pools (working
        (run_iteration timed_out_iteration ''sepolia'' example_settings example_session))) = 2
   \<and> length (pools (committed
        (run_iteration timed_out_iteration ''sepolia'' example_settings example_session))) = 1"
proof -
  have 1: "indexer_states (working example_session) = indexer_states (committed example_session)"
    by (simp add: example_session_def)
  have 2: "0 \<le> INDEXER_BATCH_SIZE example_settings" by (simp add: example_settings_def)
  note t = cursor_never_decreases [OF 1 2, of example_init "''sepolia''" failing_iteration
        "[failing_iteration, timed_out_iteration, example_iteration 250]"]
  have a: "cursor_le (committed example_session)
     (committed (run_iteration failing_iteration ''sepolia'' example_settings example_session))"
    by (rule t [THEN conjunct2, THEN conjunct1])
  have b: "cursor_le (committed example_session)
     (committed (snd (run example_init [failing_iteration, timed_out_iteration, example_iteration 250]
        ''sepolia'' example_settings example_session)))"
    by (rule t [THEN conjunct2, THEN conjunct2, THEN conjunct2, THEN conjunct2])
  have c: "map i_last_block_number (indexer_states (committed
        (run_iteration (example_iteration 250) ''sepolia'' example_settings
          (run_iteration timed_out_iteration ''sepolia'' example_settings example_session)))) = [150]"
    by code_simp
  have d: "length (pools (working
        (run_iteration timed_out_iteration ''sepolia'' example_settings example_session))) = 2"
    by code_simp
  have e: "length (pools (committed
        (run_iteration timed_out_iteration ''sepolia'' example_settings example_session))) = 1"
    by code_simp
  show ?thesis by (intro conjI) (rule a, rule b, rule c, rule d, rule e)
qed

text \<open>
  With a negative batch size the bound of the next batch is below the cursor, and a
  successful batch moves the cursor back: from 100 to 90.
\<close>

theorem negative_batch_size_moves_cursor_back:
  "map i_last_block_number (indexer_states (committed example_session)) = [100]
   \<and> working example_session = committed example_session
   \<and> map i_last_block_number (indexer_states (committed
        (run_iteration (example_iteration 250) ''sepolia'' negative_batch_settings example_session))) = [90]
   \<and> \<not> cursor_le (committed example_session) (committed
        (run_iteration (example_iteration 250) ''sepolia'' negative_batch_settings example_session))"
proof -
  have before: "indexer_states (committed example_session) =
      [\<lparr>i_chain = ''sepolia'', i_last_block_number = 100, i_is_syncing = None, i_updated_at = None\<rparr>]"
    by (simp add: example_session_def cursor_db_def)
  have after: "indexer_states (committed
        (run_iteration (example_iteration 250) ''sepolia'' negative_batch_settings example_session)) =
      [\<lparr>i_chain = ''sepolia'', i_last_block_number = 90, i_is_syncing = Some False,
        i_updated_at = Some 1700000000000000\<rparr>]"
    by code_simp
  have clean: "working example_session = committed example_session"
    by (simp add: example_session_def)
  show ?thesis
    using clean by (simp add: cursor_le_def before after)
qed

end
